theory Spec2Isabelle
  imports Complex_Main "HOL-Library.Word" "HOL-Library.Log_Nat"
begin

section \<open>Arrays, errors and numbers\<close>

text \<open>
  A numpy array of the pipeline is two-dimensional (\<open>h \<times> w\<close>, a grey image) or
  three-dimensional (\<open>h \<times> w \<times> c\<close>); it is modelled as nested lists, rows first. A real
  array is rectangular (\<open>rect2\<close>, \<open>rect3\<close>); the functions below are total on all
  nested lists and the theorems state rectangularity where they need it. The inner
  extents of an array with an empty axis are not represented.
\<close>

type_synonym u8 = "8 word"

datatype 'a ndarray = A2 "'a list list" | A3 "'a list list list"

datatype error =
    ValueError string
  | TypeError string
  | cv2_error string

definition width_of :: "'a list list \<Rightarrow> nat" where
  "width_of rows = (case rows of [] \<Rightarrow> 0 | r # _ \<Rightarrow> length r)"

definition rect2 :: "'a list list \<Rightarrow> bool" where
  "rect2 rows = list_all (\<lambda>r. length r = width_of rows) rows"

definition chans_of :: "'a list list list \<Rightarrow> nat" where
  "chans_of rows = (case concat rows of [] \<Rightarrow> 0 | p # _ \<Rightarrow> length p)"

definition rect3 :: "'a list list list \<Rightarrow> bool" where
  "rect3 rows = (rect2 rows \<and> list_all (list_all (\<lambda>p. length p = chans_of rows)) rows)"

fun rect :: "'a ndarray \<Rightarrow> bool" where
  "rect (A2 rows) = rect2 rows"
| "rect (A3 rows) = rect3 rows"

fun map_ndarray :: "('a \<Rightarrow> 'b) \<Rightarrow> 'a ndarray \<Rightarrow> 'b ndarray" where
  "map_ndarray f (A2 rows) = A2 (map (map f) rows)"
| "map_ndarray f (A3 rows) = A3 (map (map (map f)) rows)"

definition get_chan :: "nat \<Rightarrow> 'a list list list \<Rightarrow> 'a list list" where
  \<comment> \<open>\<open>a[:, :, channel]\<close>\<close>
  "get_chan ch a = map (map (\<lambda>p. p ! ch)) a"

definition shape_c :: "'a list list list \<Rightarrow> nat" where
  \<comment> \<open>The channel count. An array with an empty axis does not show it in this model; it
      is taken to be 3 there, as for the images the application decodes.\<close>
  "shape_c rows = (if concat rows = [] then 3 else chans_of rows)"

subsection \<open>float32 arithmetic\<close>

text \<open>
  A float32 value is modelled by the rational it denotes. \<open>fl32\<close> rounds a rational to
  the nearest number with a 24-bit significand, ties to even, which is what every
  float32 operation of numpy does to its exact result. The exponent range is not
  bounded here (no infinities, no subnormals): the values of these computations that
  would leave the normal range are clipped to \<open>[0, 255]\<close> or truncated to \<open>0\<close>
  afterwards.
\<close>

definition ilog2 :: "rat \<Rightarrow> int" where
  "ilog2 x = (if 1 \<le> x then int (floorlog 2 (nat \<lfloor>x\<rfloor>)) - 1
              else - int (floorlog 2 (nat (\<lceil>1 / x\<rceil> - 1))))"

definition round_half_even :: "rat \<Rightarrow> int" where
  "round_half_even r =
     (let f = \<lfloor>r\<rfloor>; d = r - of_int f
      in if d < 1 / 2 then f else if 1 / 2 < d then f + 1
         else if even f then f else f + 1)"

definition pow2 :: "int \<Rightarrow> rat" where
  "pow2 e = (if 0 \<le> e then 2 ^ nat e else 1 / 2 ^ nat (- e))"

definition fl32 :: "rat \<Rightarrow> rat" where
  "fl32 x =
     (if x = 0 then 0
      else let u = pow2 (ilog2 \<bar>x\<bar> - 23)
           in sgn x * of_int (round_half_even (\<bar>x\<bar> / u)) * u)"

definition of_u8 :: "u8 \<Rightarrow> rat" where
  \<comment> \<open>\<open>.astype(np.float32)\<close> of a uint8 value: exact.\<close>
  "of_u8 p = of_int (uint p)"

definition trunc :: "rat \<Rightarrow> int" where
  "trunc x = (if 0 \<le> x then \<lfloor>x\<rfloor> else \<lceil>x\<rceil>)"

definition astype_u8 :: "rat \<Rightarrow> u8" where
  \<comment> \<open>\<open>.astype(np.uint8)\<close> of a float32 value: the fraction is dropped. In \<open>[0, 256)\<close>
      this is exact; outside, the low eight bits of the truncated integer are kept.\<close>
  "astype_u8 x = word_of_int (trunc x)"

definition np_clip :: "rat \<Rightarrow> rat \<Rightarrow> rat \<Rightarrow> rat" where
  "np_clip x lo hi = min (max x lo) hi"

definition np_mod32 :: "rat \<Rightarrow> rat \<Rightarrow> rat" where
  \<comment> \<open>numpy's \<open>%\<close> on float32: C \<open>fmod\<close> (exact), then the sign is moved to the divisor's.\<close>
  "np_mod32 a m =
     (let r = a - m * of_int (trunc (a / m))
      in if r \<noteq> 0 \<and> (r < 0) \<noteq> (m < 0) then fl32 (r + m) else r)"

section \<open>The steps\<close>

subsection \<open>Brightness\<close>


subsection \<open>Colour conversion (OpenCV)\<close>

text \<open>
  \<open>cv2.cvtColor\<close> is not code of this repository. It works pixel by pixel, so the two
  conversions are parameters: functions on a pixel's three bytes. What is modelled of
  OpenCV is the shape check: \<open>COLOR_BGR2HSV\<close> takes a non-empty array of three or four
  channels (the fourth is dropped), \<open>COLOR_HSV2BGR\<close> one of three channels, and the
  result has three channels.
\<close>

type_synonym px3 = "u8 \<times> u8 \<times> u8"

definition px_conv :: "(px3 \<Rightarrow> px3) \<Rightarrow> u8 list \<Rightarrow> u8 list" where
  "px_conv f p = (case f (p ! 0, p ! 1, p ! 2) of (a, b, c) \<Rightarrow> [a, b, c])"

definition cvtColor :: "nat set \<Rightarrow> (px3 \<Rightarrow> px3) \<Rightarrow> u8 ndarray \<Rightarrow> error + u8 ndarray" where
  "cvtColor scn f img =
     (case img of
        A2 rows \<Rightarrow> Inl (cv2_error ''cvtColor: invalid number of channels'')
      | A3 rows \<Rightarrow>
          if concat rows = [] then Inl (cv2_error ''cvtColor: empty input'')
          else if chans_of rows \<in> scn then Inr (A3 (map (map (px_conv f)) rows))
          else Inl (cv2_error ''cvtColor: invalid number of channels''))"

definition cvtColor_BGR2HSV :: "(px3 \<Rightarrow> px3) \<Rightarrow> u8 ndarray \<Rightarrow> error + u8 ndarray" where
  "cvtColor_BGR2HSV f img = cvtColor {3, 4} f img"

definition cvtColor_HSV2BGR :: "(px3 \<Rightarrow> px3) \<Rightarrow> u8 ndarray \<Rightarrow> error + u8 ndarray" where
  "cvtColor_HSV2BGR g img = cvtColor {3} g img"

definition set_chan :: "nat \<Rightarrow> ('a \<Rightarrow> 'a) \<Rightarrow> 'a ndarray \<Rightarrow> 'a ndarray" where
  \<comment> \<open>\<open>a[:, :, k] = f(a[:, :, k])\<close> on an array whose pixels have more than \<open>k\<close> channels.\<close>
  "set_chan k f a = (case a of A2 rows \<Rightarrow> A2 rows
                     | A3 rows \<Rightarrow> A3 (map (map (\<lambda>p. p[k := f (p ! k)])) rows))"

subsection \<open>Saturation\<close>

definition SaturationStep_process ::
  "(px3 \<Rightarrow> px3) \<Rightarrow> (px3 \<Rightarrow> px3) \<Rightarrow> u8 ndarray \<Rightarrow> rat \<Rightarrow> error + u8 ndarray" where
  "SaturationStep_process bgr2hsv hsv2bgr img factor =
     (case cvtColor_BGR2HSV bgr2hsv img of
        Inl e \<Rightarrow> Inl e
      | Inr t \<Rightarrow>
          let hsv = map_ndarray of_u8 t;
              hsv = set_chan 1 (\<lambda>s. fl32 (s * fl32 factor)) hsv;
              hsv = set_chan 1 (\<lambda>s. if 255 < s then 255 else s) hsv;
              hsv = map_ndarray astype_u8 hsv
          in cvtColor_HSV2BGR hsv2bgr hsv)"

subsection \<open>Hue\<close>

definition HueStep_process ::
  "(px3 \<Rightarrow> px3) \<Rightarrow> (px3 \<Rightarrow> px3) \<Rightarrow> u8 ndarray \<Rightarrow> int \<Rightarrow> error + u8 ndarray" where
  "HueStep_process bgr2hsv hsv2bgr img shift =
     (case cvtColor_BGR2HSV bgr2hsv img of
        Inl e \<Rightarrow> Inl e
      | Inr t \<Rightarrow>
          let hsv = map_ndarray of_u8 t;
              hsv = set_chan 0 (\<lambda>h. np_mod32 (fl32 (h + fl32 (of_int shift / 2))) 180) hsv;
              hsv = map_ndarray astype_u8 hsv
          in cvtColor_HSV2BGR hsv2bgr hsv)"

subsection \<open>Crop\<close>

definition py_slice :: "'a list \<Rightarrow> int \<Rightarrow> int \<Rightarrow> 'a list" where
  \<comment> \<open>Python's \<open>xs[a:b]\<close>: a negative bound counts from the end, both are cut to the list.\<close>
  "py_slice xs a b =
     (let n = int (length xs);
          a' = (if a < 0 then max 0 (n + a) else min a n);
          b' = (if b < 0 then max 0 (n + b) else min b n)
      in drop (nat a') (take (nat b') xs))"

definition crop_rows :: "'a list list \<Rightarrow> int \<Rightarrow> int \<Rightarrow> int \<Rightarrow> int \<Rightarrow> 'a list list" where
  "crop_rows img x y width height =
     (let h = int (length img); w = int (width_of img);
          x = max 0 (min x (w - 1));
          y = max 0 (min y (h - 1));
          x2 = min (x + width) w;
          y2 = min (y + height) h
      in map (\<lambda>row. py_slice row x x2) (py_slice img y y2))"

fun CropStep_process :: "'a ndarray \<Rightarrow> int \<Rightarrow> int \<Rightarrow> int \<Rightarrow> int \<Rightarrow> 'a ndarray" where
  "CropStep_process (A2 rows) x y width height = A2 (crop_rows rows x y width height)"
| "CropStep_process (A3 rows) x y width height = A3 (crop_rows rows x y width height)"

subsection \<open>Rotate\<close>

text \<open>
  \<open>cv2.rotate\<close>, from OpenCV's documentation: a \<open>h \<times> w\<close> picture becomes \<open>w \<times> h\<close> under
  the two quarter turns; a pixel keeps its channels. OpenCV hands a picture of one
  channel back as a two-dimensional array, also when it came as \<open>h \<times> w \<times> 1\<close>. For an
  array without elements OpenCV yields no array (the Python call returns \<open>None\<close>);
  \<open>cv2_rotate\<close> describes the call on an array with elements.
\<close>

datatype rotate_code = ROTATE_90_CLOCKWISE | ROTATE_180 | ROTATE_90_COUNTERCLOCKWISE

fun rotate_rows :: "rotate_code \<Rightarrow> 'a list list \<Rightarrow> 'a list list" where
  "rotate_rows ROTATE_90_CLOCKWISE src =
     (let h = length src; w = width_of src
      in map (\<lambda>i. map (\<lambda>j. src ! (h - 1 - j) ! i) [0..<h]) [0..<w])"
| "rotate_rows ROTATE_180 src =
     (let h = length src; w = width_of src
      in map (\<lambda>i. map (\<lambda>j. src ! (h - 1 - i) ! (w - 1 - j)) [0..<w]) [0..<h])"
| "rotate_rows ROTATE_90_COUNTERCLOCKWISE src =
     (let h = length src; w = width_of src
      in map (\<lambda>i. map (\<lambda>j. src ! j ! (w - 1 - i)) [0..<h]) [0..<w])"

fun cv2_rotate :: "'a ndarray \<Rightarrow> rotate_code \<Rightarrow> 'a ndarray" where
  "cv2_rotate (A2 rows) code = A2 (rotate_rows code rows)"
| "cv2_rotate (A3 rows) code =
     (if shape_c rows = 1 then A2 (rotate_rows code (get_chan 0 rows))
      else A3 (rotate_rows code rows))"

function RotateStep_process :: "'a ndarray \<Rightarrow> int \<Rightarrow> 'a ndarray" where
  "RotateStep_process img angle =
     (let angle = angle mod 360
      in if angle = 0 then img
         else if angle = 90 then cv2_rotate img ROTATE_90_CLOCKWISE
         else if angle = 180 then cv2_rotate img ROTATE_180
         else if angle = 270 then cv2_rotate img ROTATE_90_COUNTERCLOCKWISE
         else let nearest_90 = round_half_even (of_int angle / 90) * 90
              in RotateStep_process img nearest_90)"
  by pat_completeness auto
termination
proof (relation "measure (\<lambda>(img, angle). if angle mod 360 \<in> {0, 90, 180, 270} then 0 else 1)")
  show "wf (measure (\<lambda>(img :: 'a ndarray, angle :: int).
      if angle mod 360 \<in> {0, 90, 180, 270} then 0 else (1 :: nat)))"
    by simp
next
  fix img :: "'a ndarray" and angle x :: int and xa :: int
  assume a: "x = angle mod 360" "x \<noteq> 0" "x \<noteq> 90" "x \<noteq> 180" "x \<noteq> 270"
    and b: "xa = round_half_even (of_int x / 90) * 90"
  define k where "k = round_half_even (of_int x / 90)"
  have "(k * 90) mod 360 = 90 * (k mod 4)"
    using mult_mod_right [of 90 k 4] by (simp add: mult.commute)
  moreover have "k mod 4 \<in> {0, 1, 2, 3}"
    by (simp; presburger)
  ultimately have "(round_half_even (of_int x / 90) * 90) mod 360 \<in> {0, 90, 180, 270}"
    unfolding k_def by auto
  with a b show "((img, xa), (img, angle))
      \<in> measure (\<lambda>(img, angle). if angle mod 360 \<in> {0, 90, 180, 270} then 0 else 1)"
    by simp
qed

subsection \<open>Box blur\<close>

definition edge1 :: "nat \<Rightarrow> 'a list \<Rightarrow> 'a list" where
  \<comment> \<open>One axis of an edge padding: the first and the last entry are repeated.\<close>
  "edge1 p xs = (case xs of [] \<Rightarrow> [] | x # _ \<Rightarrow> replicate p x @ xs @ replicate p (last xs))"

definition np_pad_edge :: "'a list list \<Rightarrow> int \<Rightarrow> error + 'a list list" where
  \<comment> \<open>\<open>np.pad(img, pad, mode='edge')\<close> on a two-dimensional array.\<close>
  "np_pad_edge a pad =
     (if pad < 0 then Inl (ValueError ''index cannot contain negative values'')
      else if concat a = [] \<and> pad \<noteq> 0
        then Inl (ValueError ''cannot extend empty axis using modes other than constant or empty'')
      else Inr (edge1 (nat pad) (map (edge1 (nat pad)) a)))"

fun accumulate :: "'a \<Rightarrow> ('a \<Rightarrow> 'b \<Rightarrow> 'a) \<Rightarrow> 'b list \<Rightarrow> 'a list" where
  "accumulate a f [] = []"
| "accumulate a f (x # xs) = f a x # accumulate (f a x) f xs"

definition cumsum_list :: "rat list \<Rightarrow> rat list" where
  \<comment> \<open>\<open>np.cumsum\<close> of float32 values: the first is kept, each next is a float32 addition.\<close>
  "cumsum_list xs = (case xs of [] \<Rightarrow> [] | x # r \<Rightarrow> x # accumulate x (\<lambda>a y. fl32 (a + y)) r)"

definition cumsum_axis1 :: "rat list list \<Rightarrow> rat list list" where
  "cumsum_axis1 a = map cumsum_list a"

definition cumsum_axis0 :: "rat list list \<Rightarrow> rat list list" where
  "cumsum_axis0 a =
     (case a of [] \<Rightarrow> []
      | r # rs \<Rightarrow> r # accumulate r (\<lambda>acc row. map2 (\<lambda>s y. fl32 (s + y)) acc row) rs)"

definition integral_table :: "nat \<Rightarrow> nat \<Rightarrow> nat \<Rightarrow> rat list list \<Rightarrow> rat list list" where
  \<comment> \<open>\<open>cumsum = zeros((h + 2*pad + 1, w + 2*pad + 1)); cumsum[1:, 1:] = cumsum(cumsum(padded, 0), 1)\<close>\<close>
  "integral_table h w pad padded =
     replicate (w + 2 * pad + 1) 0 # map (\<lambda>r. 0 # r) (cumsum_axis1 (cumsum_axis0 padded))"

definition box_sums :: "nat \<Rightarrow> nat \<Rightarrow> nat \<Rightarrow> rat list list \<Rightarrow> rat list list" where
  \<comment> \<open>\<open>cumsum[Y2, X2] - cumsum[Y1, X2] - cumsum[Y2, X1] + cumsum[Y1, X1]\<close>, each operation
      in float32, for \<open>Y1 = y\<close>, \<open>X1 = x\<close>, \<open>Y2 = y + kernel_size\<close>, \<open>X2 = x + kernel_size\<close>.\<close>
  "box_sums h w k cumsum =
     map (\<lambda>y. map (\<lambda>x.
            fl32 (fl32 (fl32 (cumsum ! (y + k) ! (x + k) - cumsum ! y ! (x + k))
                        - cumsum ! (y + k) ! x)
                  + cumsum ! y ! x))
          [0..<w]) [0..<h]"

definition put_chan :: "nat \<Rightarrow> 'a list list \<Rightarrow> 'a list list list \<Rightarrow> 'a list list list" where
  \<comment> \<open>\<open>output[:, :, channel] = values\<close>\<close>
  "put_chan ch vals output = map2 (\<lambda>row vrow. map2 (\<lambda>p v. p[ch := v]) row vrow) output vals"

definition blur_channel :: "u8 list list list \<Rightarrow> nat \<Rightarrow> nat \<Rightarrow> int \<Rightarrow> int \<Rightarrow> nat
    \<Rightarrow> error + rat list list" where
  \<comment> \<open>The body of the loop over the channels, up to the value stored in \<open>output\<close>.\<close>
  "blur_channel image3 h w kernel_size pad channel =
     (let im = map (map of_u8) (get_chan channel image3)
      in case np_pad_edge im pad of
           Inl e \<Rightarrow> Inl e
         | Inr padded \<Rightarrow>
             let cumsum = integral_table h w (nat pad) padded;
                 sums' = box_sums h w (nat kernel_size) cumsum
             in Inr (map (map (\<lambda>s. fl32 (s / fl32 (of_int (kernel_size * kernel_size))))) sums'))"

fun blur_loop :: "u8 list list list \<Rightarrow> nat \<Rightarrow> nat \<Rightarrow> int \<Rightarrow> int \<Rightarrow> nat list
    \<Rightarrow> rat list list list \<Rightarrow> error + rat list list list" where
  "blur_loop image3 h w kernel_size pad [] output = Inr output"
| "blur_loop image3 h w kernel_size pad (channel # rest) output =
     (case blur_channel image3 h w kernel_size pad channel of
        Inl e \<Rightarrow> Inl e
      | Inr vals \<Rightarrow> blur_loop image3 h w kernel_size pad rest (put_chan channel vals output))"

definition blur_finish :: "nat \<Rightarrow> rat list list list \<Rightarrow> u8 ndarray" where
  \<comment> \<open>\<open>if c == 1: output = output[:, :, 0]\<close>, then \<open>np.clip(output, 0, 255).astype(np.uint8)\<close>\<close>
  "blur_finish c output =
     map_ndarray (\<lambda>v. astype_u8 (np_clip v 0 255))
       (if c = 1 then A2 (get_chan 0 output) else A3 output)"

definition BoxBlurStep_process :: "u8 ndarray \<Rightarrow> int \<Rightarrow> error + u8 ndarray" where
  "BoxBlurStep_process img kernel_size =
     (let kernel_size = (if kernel_size mod 2 = 0 then kernel_size + 1 else kernel_size);
          image3 = (case img of A2 rows \<Rightarrow> map (map (\<lambda>p. [p])) rows | A3 rows \<Rightarrow> rows);
          h = length image3; w = width_of image3; c = shape_c image3;
          output = map (map (map (\<lambda>_. 0))) image3;
          pad = kernel_size div 2
      in case blur_loop image3 h w kernel_size pad [0..<c] output of
           Inl e \<Rightarrow> Inl e
         | Inr output \<Rightarrow> Inr (blur_finish c output))"

subsection \<open>Unsharp mask\<close>

definition shape3 :: "'a list list list \<Rightarrow> nat \<times> nat \<times> nat" where
  "shape3 a = (length a, width_of a, chans_of a)"

definition bdim :: "nat \<Rightarrow> nat \<Rightarrow> nat" where
  "bdim d1 d2 = (if d1 = 1 then d2 else d1)"

definition bidx :: "nat \<Rightarrow> nat \<Rightarrow> nat" where
  "bidx d i = (if d = 1 then 0 else i)"

definition compat :: "nat \<Rightarrow> nat \<Rightarrow> bool" where
  "compat d1 d2 = (d1 = d2 \<or> d1 = 1 \<or> d2 = 1)"

definition broadcast3 :: "('a \<Rightarrow> 'b \<Rightarrow> 'c) \<Rightarrow> 'a list list list \<Rightarrow> 'b list list list
    \<Rightarrow> error + 'c list list list" where
  \<comment> \<open>numpy's broadcasting of an elementwise operation over two three-dimensional arrays.\<close>
  "broadcast3 f a b =
     (case (shape3 a, shape3 b) of ((h1, w1, c1), (h2, w2, c2)) \<Rightarrow>
        if compat h1 h2 \<and> compat w1 w2 \<and> compat c1 c2
        then Inr (map (\<lambda>i. map (\<lambda>j. map (\<lambda>k.
                    f (a ! bidx h1 i ! bidx w1 j ! bidx c1 k) (b ! bidx h2 i ! bidx w2 j ! bidx c2 k))
                  [0..<bdim c1 c2]) [0..<bdim w1 w2]) [0..<bdim h1 h2])
        else Inl (ValueError ''operands could not be broadcast together''))"

definition np_binop :: "('a \<Rightarrow> 'b \<Rightarrow> 'c) \<Rightarrow> 'a ndarray \<Rightarrow> 'b ndarray \<Rightarrow> error + 'c ndarray" where
  \<comment> \<open>A two-dimensional operand counts as \<open>1 \<times> h \<times> w\<close>.\<close>
  "np_binop f x y =
     (case (x, y) of
        (A2 a, A2 b) \<Rightarrow> (case broadcast3 f [a] [b] of Inl e \<Rightarrow> Inl e | Inr r \<Rightarrow> Inr (A2 (hd r)))
      | (A3 a, A2 b) \<Rightarrow> (case broadcast3 f a [b] of Inl e \<Rightarrow> Inl e | Inr r \<Rightarrow> Inr (A3 r))
      | (A2 a, A3 b) \<Rightarrow> (case broadcast3 f [a] b of Inl e \<Rightarrow> Inl e | Inr r \<Rightarrow> Inr (A3 r))
      | (A3 a, A3 b) \<Rightarrow> (case broadcast3 f a b of Inl e \<Rightarrow> Inl e | Inr r \<Rightarrow> Inr (A3 r)))"

definition UnsharpMaskStep_process :: "u8 ndarray \<Rightarrow> rat \<Rightarrow> int \<Rightarrow> error + u8 ndarray" where
  "UnsharpMaskStep_process img strength blur_size =
     (case BoxBlurStep_process img blur_size of
        Inl e \<Rightarrow> Inl e
      | Inr blurred \<Rightarrow>
          (case np_binop (\<lambda>p b. fl32 (p - b)) (map_ndarray of_u8 img) (map_ndarray of_u8 blurred) of
             Inl e \<Rightarrow> Inl e
           | Inr diff \<Rightarrow>
               (case np_binop (\<lambda>p d. fl32 (p + d)) (map_ndarray of_u8 img)
                       (map_ndarray (\<lambda>d. fl32 (fl32 strength * d)) diff) of
                  Inl e \<Rightarrow> Inl e
                | Inr sharpened \<Rightarrow>
                    Inr (map_ndarray (\<lambda>v. astype_u8 (np_clip v 0 255)) sharpened))))"

section \<open>The store\<close>

text \<open>
  Arrays are objects: a step may return the array it was given, and some steps write
  into arrays. The store is the list of the arrays allocated so far, an address is an
  index into it, \<open>new\<close> appends, and a write in place is a list update. An array gets an
  address when it is returned or written after its creation; the temporaries that are
  filled where they are created and only read afterwards are values. Memory layout is
  not modelled: every array made here is C-contiguous, so the two
  \<open>np.ascontiguousarray\<close> branches of the executor are never taken.
\<close>

datatype cell = U8 "u8 ndarray" | F32 "rat ndarray"

type_synonym heap = "cell list"
type_synonym addr = nat

definition new :: "heap \<Rightarrow> cell \<Rightarrow> addr \<times> heap" where
  "new h v = (length h, h @ [v])"

definition get_u8 :: "cell \<Rightarrow> u8 ndarray" where
  "get_u8 c = (case c of U8 a \<Rightarrow> a | F32 a \<Rightarrow> map_ndarray astype_u8 a)"

definition get_f32 :: "cell \<Rightarrow> rat ndarray" where
  "get_f32 c = (case c of F32 a \<Rightarrow> a | U8 a \<Rightarrow> map_ndarray of_u8 a)"

definition rows3 :: "'a ndarray \<Rightarrow> 'a list list list" where
  "rows3 a = (case a of A3 rows \<Rightarrow> rows | A2 rows \<Rightarrow> map (map (\<lambda>p. [p])) rows)"

definition BrightnessStep_call :: "heap \<Rightarrow> addr \<Rightarrow> rat \<Rightarrow> (error + addr) \<times> heap" where
  "BrightnessStep_call h img factor =
     (case new h (F32 (map_ndarray (\<lambda>p. fl32 (of_u8 p * fl32 factor)) (get_u8 (h ! img)))) of
        (result, h) \<Rightarrow>
          (case new h (U8 (map_ndarray (\<lambda>v. astype_u8 (np_clip v 0 255)) (get_f32 (h ! result)))) of
             (r, h) \<Rightarrow> (Inr r, h)))"

definition SaturationStep_call ::
  "(px3 \<Rightarrow> px3) \<Rightarrow> (px3 \<Rightarrow> px3) \<Rightarrow> heap \<Rightarrow> addr \<Rightarrow> rat \<Rightarrow> (error + addr) \<times> heap" where
  "SaturationStep_call bgr2hsv hsv2bgr h img factor =
     (case cvtColor_BGR2HSV bgr2hsv (get_u8 (h ! img)) of
        Inl e \<Rightarrow> (Inl e, h)
      | Inr t \<Rightarrow>
          (case new h (F32 (map_ndarray of_u8 t)) of
             (hsv, h) \<Rightarrow>
               let h = h[hsv := F32 (set_chan 1 (\<lambda>s. fl32 (s * fl32 factor)) (get_f32 (h ! hsv)))];
                   h = h[hsv := F32 (set_chan 1 (\<lambda>s. if 255 < s then 255 else s) (get_f32 (h ! hsv)))]
               in (case new h (U8 (map_ndarray astype_u8 (get_f32 (h ! hsv)))) of
                     (hsv, h) \<Rightarrow>
                       (case cvtColor_HSV2BGR hsv2bgr (get_u8 (h ! hsv)) of
                          Inl e \<Rightarrow> (Inl e, h)
                        | Inr r \<Rightarrow> (case new h (U8 r) of (r, h) \<Rightarrow> (Inr r, h))))))"

definition HueStep_call ::
  "(px3 \<Rightarrow> px3) \<Rightarrow> (px3 \<Rightarrow> px3) \<Rightarrow> heap \<Rightarrow> addr \<Rightarrow> int \<Rightarrow> (error + addr) \<times> heap" where
  "HueStep_call bgr2hsv hsv2bgr h img shift =
     (case cvtColor_BGR2HSV bgr2hsv (get_u8 (h ! img)) of
        Inl e \<Rightarrow> (Inl e, h)
      | Inr t \<Rightarrow>
          (case new h (F32 (map_ndarray of_u8 t)) of
             (hsv, h) \<Rightarrow>
               let h = h[hsv := F32 (set_chan 0
                         (\<lambda>x. np_mod32 (fl32 (x + fl32 (of_int shift / 2))) 180) (get_f32 (h ! hsv)))]
               in (case new h (U8 (map_ndarray astype_u8 (get_f32 (h ! hsv)))) of
                     (hsv, h) \<Rightarrow>
                       (case cvtColor_HSV2BGR hsv2bgr (get_u8 (h ! hsv)) of
                          Inl e \<Rightarrow> (Inl e, h)
                        | Inr r \<Rightarrow> (case new h (U8 r) of (r, h) \<Rightarrow> (Inr r, h))))))"

fun blur_loop_call :: "u8 list list list \<Rightarrow> nat \<Rightarrow> nat \<Rightarrow> int \<Rightarrow> int \<Rightarrow> nat list
    \<Rightarrow> addr \<Rightarrow> heap \<Rightarrow> (error + unit) \<times> heap" where
  "blur_loop_call image3 hh w kernel_size pad [] output h = (Inr (), h)"
| "blur_loop_call image3 hh w kernel_size pad (channel # rest) output h =
     (case blur_channel image3 hh w kernel_size pad channel of
        Inl e \<Rightarrow> (Inl e, h)
      | Inr vals \<Rightarrow>
          blur_loop_call image3 hh w kernel_size pad rest output
            (h[output := F32 (A3 (put_chan channel vals (rows3 (get_f32 (h ! output)))))]))"

definition BoxBlurStep_call :: "heap \<Rightarrow> addr \<Rightarrow> int \<Rightarrow> (error + addr) \<times> heap" where
  "BoxBlurStep_call h img kernel_size =
     (let kernel_size = (if kernel_size mod 2 = 0 then kernel_size + 1 else kernel_size);
          image3 = rows3 (get_u8 (h ! img));
          hh = length image3; w = width_of image3; c = shape_c image3;
          pad = kernel_size div 2
      in case new h (F32 (A3 (map (map (map (\<lambda>_. 0))) image3))) of
           (output, h) \<Rightarrow>
             (case blur_loop_call image3 hh w kernel_size pad [0..<c] output h of
                (Inl e, h) \<Rightarrow> (Inl e, h)
              | (Inr _, h) \<Rightarrow>
                  (case new h (U8 (blur_finish c (rows3 (get_f32 (h ! output))))) of
                     (r, h) \<Rightarrow> (Inr r, h))))"

definition UnsharpMaskStep_call :: "heap \<Rightarrow> addr \<Rightarrow> rat \<Rightarrow> int \<Rightarrow> (error + addr) \<times> heap" where
  "UnsharpMaskStep_call h img strength blur_size =
     (case BoxBlurStep_call h img blur_size of
        (Inl e, h) \<Rightarrow> (Inl e, h)
      | (Inr blurred, h) \<Rightarrow>
          (case np_binop (\<lambda>p b. fl32 (p - b))
                  (map_ndarray of_u8 (get_u8 (h ! img))) (map_ndarray of_u8 (get_u8 (h ! blurred))) of
             Inl e \<Rightarrow> (Inl e, h)
           | Inr d \<Rightarrow>
               (case new h (F32 d) of
                  (diff, h) \<Rightarrow>
                    (case np_binop (\<lambda>p d. fl32 (p + d)) (map_ndarray of_u8 (get_u8 (h ! img)))
                            (map_ndarray (\<lambda>d. fl32 (fl32 strength * d)) (get_f32 (h ! diff))) of
                       Inl e \<Rightarrow> (Inl e, h)
                     | Inr s \<Rightarrow>
                         (case new h (F32 s) of
                            (sharpened, h) \<Rightarrow>
                              (case new h (U8 (map_ndarray (\<lambda>v. astype_u8 (np_clip v 0 255))
                                                 (get_f32 (h ! sharpened)))) of
                                 (r, h) \<Rightarrow> (Inr r, h)))))))"

definition CropStep_call :: "heap \<Rightarrow> addr \<Rightarrow> int \<Rightarrow> int \<Rightarrow> int \<Rightarrow> int \<Rightarrow> (error + addr) \<times> heap" where
  \<comment> \<open>\<open>image[y:y2, x:x2].copy()\<close>: the slice is a view, the copy a new array.\<close>
  "CropStep_call h img x y width height =
     (case new h (U8 (CropStep_process (get_u8 (h ! img)) x y width height)) of
        (r, h) \<Rightarrow> (Inr r, h))"

function RotateStep_call :: "heap \<Rightarrow> addr \<Rightarrow> int \<Rightarrow> (error + addr) \<times> heap" where
  "RotateStep_call h img angle =
     (let angle = angle mod 360
      in if angle = 0 then (Inr img, h)
         else if angle = 90
           then (case new h (U8 (cv2_rotate (get_u8 (h ! img)) ROTATE_90_CLOCKWISE)) of
                   (r, h) \<Rightarrow> (Inr r, h))
         else if angle = 180
           then (case new h (U8 (cv2_rotate (get_u8 (h ! img)) ROTATE_180)) of
                   (r, h) \<Rightarrow> (Inr r, h))
         else if angle = 270
           then (case new h (U8 (cv2_rotate (get_u8 (h ! img)) ROTATE_90_COUNTERCLOCKWISE)) of
                   (r, h) \<Rightarrow> (Inr r, h))
         else let nearest_90 = round_half_even (of_int angle / 90) * 90
              in RotateStep_call h img nearest_90)"
  by pat_completeness auto
termination
proof (relation "measure (\<lambda>(h, img, angle). if angle mod 360 \<in> {0, 90, 180, 270} then 0 else 1)")
  show "wf (measure (\<lambda>(h :: heap, img :: addr, angle :: int).
      if angle mod 360 \<in> {0, 90, 180, 270} then 0 else (1 :: nat)))"
    by simp
next
  fix h :: heap and img :: addr and angle x :: int and xa :: int
  assume a: "x = angle mod 360" "x \<noteq> 0" "x \<noteq> 90" "x \<noteq> 180" "x \<noteq> 270"
    and b: "xa = round_half_even (of_int x / 90) * 90"
  define k where "k = round_half_even (of_int x / 90)"
  have "(k * 90) mod 360 = 90 * (k mod 4)"
    using mult_mod_right [of 90 k 4] by (simp add: mult.commute)
  moreover have "k mod 4 \<in> {0, 1, 2, 3}"
    by (simp; presburger)
  ultimately have "(round_half_even (of_int x / 90) * 90) mod 360 \<in> {0, 90, 180, 270}"
    unfolding k_def by auto
  with a b show "((h, img, xa), (h, img, angle))
      \<in> measure (\<lambda>(h, img, angle). if angle mod 360 \<in> {0, 90, 180, 270} then 0 else 1)"
    by simp
qed

section \<open>The pipeline\<close>

datatype pyval = PyInt int | PyFloat rat



datatype step = BrightnessStep | SaturationStep | HueStep | BoxBlurStep | UnsharpMaskStep
  | CropStep | RotateStep


definition available_steps :: "string \<rightharpoonup> step" where
  "available_steps = map_of
     [(''brightness'', BrightnessStep), (''saturation'', SaturationStep), (''hue'', HueStep),
      (''box_blur'', BoxBlurStep), (''unsharp_mask'', UnsharpMaskStep), (''crop'', CropStep),
      (''rotate'', RotateStep)]"

text \<open>
  A call \<open>step.process(result, **params)\<close> binds the entries of the dictionary to the
  keyword parameters of \<open>process\<close>: a key that is no parameter raises \<open>TypeError\<close>, a
  parameter without an entry takes the default of the signature. Python checks no
  annotation, so each value reaches the body of \<open>process\<close> as it is. The parameter values
  of this model are the numbers of JSON, \<open>int\<close> and \<open>float\<close>.
\<close>

definition bind_kwargs :: "string list \<Rightarrow> (string \<times> pyval) list \<Rightarrow> error + (string \<rightharpoonup> pyval)" where
  "bind_kwargs names params =
     (if list_all (\<lambda>(k, v). k \<in> set names) params then Inr (map_of params)
      else Inl (TypeError ''process() got an unexpected keyword argument''))"

definition arg :: "(string \<rightharpoonup> pyval) \<Rightarrow> string \<Rightarrow> pyval \<Rightarrow> pyval" where
  \<comment> \<open>The value of a keyword parameter: the entry, or the default of the signature.\<close>
  "arg kw k d = (case kw k of None \<Rightarrow> d | Some v \<Rightarrow> v)"

definition float_arg :: "(string \<rightharpoonup> pyval) \<Rightarrow> string \<Rightarrow> rat \<Rightarrow> rat" where
  "float_arg kw k d = (case kw k of None \<Rightarrow> d | Some (PyInt n) \<Rightarrow> of_int n | Some (PyFloat r) \<Rightarrow> r)"

subsection \<open>A float where the signature says int\<close>

text \<open>
  The parameters \<open>shift\<close>, \<open>kernel_size\<close>, \<open>blur_size\<close>, \<open>x\<close>, \<open>y\<close>, \<open>width\<close>, \<open>height\<close> and \<open>angle\<close>
  are annotated \<open>int\<close>, and the definitions above take them as integers. Given a \<open>float\<close>,
  the same bodies run with Python's float operations; the definitions of this subsection
  follow them line by line. A Python \<open>float\<close> is a double: \<open>fl64\<close> rounds to a 53-bit
  significand, ties to even, as \<open>fl32\<close> does to 24 bits, again without a bound on the
  exponent.
\<close>

definition fl64 :: "rat \<Rightarrow> rat" where
  "fl64 x =
     (if x = 0 then 0
      else let u = pow2 (ilog2 \<bar>x\<bar> - 52)
           in sgn x * of_int (round_half_even (\<bar>x\<bar> / u)) * u)"

definition py_float_mod :: "rat \<Rightarrow> rat \<Rightarrow> rat" where
  \<comment> \<open>Python's \<open>%\<close> on floats: C \<open>fmod\<close> (exact), then the sign is moved to the divisor's.\<close>
  "py_float_mod a m =
     (let r = a - m * of_int (trunc (a / m))
      in if r \<noteq> 0 \<and> (r < 0) \<noteq> (m < 0) then fl64 (r + m) else r)"

definition py_num :: "pyval \<Rightarrow> rat" where
  "py_num v = (case v of PyInt n \<Rightarrow> of_int n | PyFloat r \<Rightarrow> r)"

definition py_min :: "pyval \<Rightarrow> pyval \<Rightarrow> pyval" where
  \<comment> \<open>\<open>min(a, b)\<close>: the second argument if it is smaller, else the first; the value keeps
      its type. Python compares an \<open>int\<close> with a \<open>float\<close> exactly.\<close>
  "py_min a b = (if py_num b < py_num a then b else a)"

definition py_max :: "pyval \<Rightarrow> pyval \<Rightarrow> pyval" where
  "py_max a b = (if py_num a < py_num b then b else a)"

definition py_add :: "pyval \<Rightarrow> pyval \<Rightarrow> pyval" where
  \<comment> \<open>\<open>a + b\<close>: an \<open>int\<close> if both are, else the float sum of the two as floats.\<close>
  "py_add a b =
     (case (a, b) of
        (PyInt m, PyInt n) \<Rightarrow> PyInt (m + n)
      | _ \<Rightarrow> PyFloat (fl64 (fl64 (py_num a) + fl64 (py_num b))))"

definition HueStep_call_float ::
  "(px3 \<Rightarrow> px3) \<Rightarrow> (px3 \<Rightarrow> px3) \<Rightarrow> heap \<Rightarrow> addr \<Rightarrow> rat \<Rightarrow> (error + addr) \<times> heap" where
  \<comment> \<open>\<open>shift/2\<close> is exact on a float; numpy adds it to the float32 array as a float32.\<close>
  "HueStep_call_float bgr2hsv hsv2bgr h img shift =
     (case cvtColor_BGR2HSV bgr2hsv (get_u8 (h ! img)) of
        Inl e \<Rightarrow> (Inl e, h)
      | Inr t \<Rightarrow>
          (case new h (F32 (map_ndarray of_u8 t)) of
             (hsv, h) \<Rightarrow>
               let h = h[hsv := F32 (set_chan 0
                         (\<lambda>x. np_mod32 (fl32 (x + fl32 (shift / 2))) 180) (get_f32 (h ! hsv)))]
               in (case new h (U8 (map_ndarray astype_u8 (get_f32 (h ! hsv)))) of
                     (hsv, h) \<Rightarrow>
                       (case cvtColor_HSV2BGR hsv2bgr (get_u8 (h ! hsv)) of
                          Inl e \<Rightarrow> (Inl e, h)
                        | Inr r \<Rightarrow> (case new h (U8 r) of (r, h) \<Rightarrow> (Inr r, h))))))"

definition BoxBlurStep_call_float :: "heap \<Rightarrow> addr \<Rightarrow> rat \<Rightarrow> (error + addr) \<times> heap" where
  \<comment> \<open>\<open>kernel_size % 2\<close>, \<open>kernel_size += 1\<close> and \<open>kernel_size // 2\<close> are float operations and
      \<open>pad\<close> is a float; \<open>np.pad\<close> raises on it in the first round of the loop over the
      channels, before it looks at the array.\<close>
  "BoxBlurStep_call_float h img kernel_size =
     (let image3 = rows3 (get_u8 (h ! img));
          c = shape_c image3
      in case new h (F32 (A3 (map (map (map (\<lambda>_. 0))) image3))) of
           (output, h) \<Rightarrow>
             (if [0..<c] = []
              then (case new h (U8 (blur_finish c (rows3 (get_f32 (h ! output))))) of
                      (r, h) \<Rightarrow> (Inr r, h))
              else (Inl (TypeError ''`pad_width` must be of integral type.''), h)))"

definition unsharp_of_blurred :: "heap \<Rightarrow> addr \<Rightarrow> rat \<Rightarrow> addr \<Rightarrow> (error + addr) \<times> heap" where
  \<comment> \<open>The lines of \<open>UnsharpMaskStep.process\<close> after the blur.\<close>
  "unsharp_of_blurred h img strength blurred =
     (case np_binop (\<lambda>p b. fl32 (p - b))
             (map_ndarray of_u8 (get_u8 (h ! img))) (map_ndarray of_u8 (get_u8 (h ! blurred))) of
        Inl e \<Rightarrow> (Inl e, h)
      | Inr d \<Rightarrow>
          (case new h (F32 d) of
             (diff, h) \<Rightarrow>
               (case np_binop (\<lambda>p d. fl32 (p + d)) (map_ndarray of_u8 (get_u8 (h ! img)))
                       (map_ndarray (\<lambda>d. fl32 (fl32 strength * d)) (get_f32 (h ! diff))) of
                  Inl e \<Rightarrow> (Inl e, h)
                | Inr s \<Rightarrow>
                    (case new h (F32 s) of
                       (sharpened, h) \<Rightarrow>
                         (case new h (U8 (map_ndarray (\<lambda>v. astype_u8 (np_clip v 0 255))
                                            (get_f32 (h ! sharpened)))) of
                            (r, h) \<Rightarrow> (Inr r, h))))))"

definition UnsharpMaskStep_call_float :: "heap \<Rightarrow> addr \<Rightarrow> rat \<Rightarrow> rat \<Rightarrow> (error + addr) \<times> heap" where
  "UnsharpMaskStep_call_float h img strength blur_size =
     (case BoxBlurStep_call_float h img blur_size of
        (Inl e, h) \<Rightarrow> (Inl e, h)
      | (Inr blurred, h) \<Rightarrow> unsharp_of_blurred h img strength blurred)"

definition crop_rows_py ::
  "'a list list \<Rightarrow> pyval \<Rightarrow> pyval \<Rightarrow> pyval \<Rightarrow> pyval \<Rightarrow> error + 'a list list" where
  \<comment> \<open>The body of \<open>CropStep.process\<close> on numbers of either type: a slice bound that is a
      float raises \<open>TypeError\<close>.\<close>
  "crop_rows_py img x y width height =
     (let h = int (length img); w = int (width_of img);
          x = py_max (PyInt 0) (py_min x (PyInt (w - 1)));
          y = py_max (PyInt 0) (py_min y (PyInt (h - 1)));
          x2 = py_min (py_add x width) (PyInt w);
          y2 = py_min (py_add y height) (PyInt h)
      in case (y, y2, x, x2) of
           (PyInt y, PyInt y2, PyInt x, PyInt x2) \<Rightarrow>
             Inr (map (\<lambda>row. py_slice row x x2) (py_slice img y y2))
         | _ \<Rightarrow>
             Inl (TypeError ''slice indices must be integers or None or have an __index__ method''))"

definition CropStep_call_py ::
  "heap \<Rightarrow> addr \<Rightarrow> pyval \<Rightarrow> pyval \<Rightarrow> pyval \<Rightarrow> pyval \<Rightarrow> (error + addr) \<times> heap" where
  "CropStep_call_py h img x y width height =
     (case (case get_u8 (h ! img) of
              A2 rows \<Rightarrow> map_sum id A2 (crop_rows_py rows x y width height)
            | A3 rows \<Rightarrow> map_sum id A3 (crop_rows_py rows x y width height)) of
        Inl e \<Rightarrow> (Inl e, h)
      | Inr a \<Rightarrow> (case new h (U8 a) of (r, h) \<Rightarrow> (Inr r, h)))"

definition RotateStep_call_float :: "heap \<Rightarrow> addr \<Rightarrow> rat \<Rightarrow> (error + addr) \<times> heap" where
  \<comment> \<open>\<open>angle % 360\<close> and \<open>angle / 90\<close> are float operations; \<open>round\<close> gives an \<open>int\<close>, and the call
      of \<open>self.process\<close> is the one on integers.\<close>
  "RotateStep_call_float h img angle =
     (let angle = py_float_mod angle 360
      in if angle = 0 then (Inr img, h)
         else if angle = 90
           then (case new h (U8 (cv2_rotate (get_u8 (h ! img)) ROTATE_90_CLOCKWISE)) of
                   (r, h) \<Rightarrow> (Inr r, h))
         else if angle = 180
           then (case new h (U8 (cv2_rotate (get_u8 (h ! img)) ROTATE_180)) of
                   (r, h) \<Rightarrow> (Inr r, h))
         else if angle = 270
           then (case new h (U8 (cv2_rotate (get_u8 (h ! img)) ROTATE_90_COUNTERCLOCKWISE)) of
                   (r, h) \<Rightarrow> (Inr r, h))
         else let nearest_90 = round_half_even (fl64 (angle / 90)) * 90
              in RotateStep_call h img nearest_90)"

subsection \<open>The call\<close>

fun param_names :: "step \<Rightarrow> string list" where
  \<comment> \<open>The keyword parameters in the signature of \<open>process\<close>.\<close>
  "param_names BrightnessStep = [''factor'']"
| "param_names SaturationStep = [''factor'']"
| "param_names HueStep = [''shift'']"
| "param_names BoxBlurStep = [''kernel_size'']"
| "param_names UnsharpMaskStep = [''strength'', ''blur_size'']"
| "param_names CropStep = [''x'', ''y'', ''width'', ''height'']"
| "param_names RotateStep = [''angle'']"

definition step_process :: "(px3 \<Rightarrow> px3) \<Rightarrow> (px3 \<Rightarrow> px3) \<Rightarrow> step \<Rightarrow> heap \<Rightarrow> addr
    \<Rightarrow> (string \<rightharpoonup> pyval) \<Rightarrow> (error + addr) \<times> heap" where
  \<comment> \<open>The body of \<open>process\<close> on the bound keyword arguments; a parameter without an entry
      has the default of the signature.\<close>
  "step_process bgr2hsv hsv2bgr s h img kw =
     (case s of
        BrightnessStep \<Rightarrow> BrightnessStep_call h img (float_arg kw ''factor'' 1)
      | SaturationStep \<Rightarrow> SaturationStep_call bgr2hsv hsv2bgr h img (float_arg kw ''factor'' 1)
      | HueStep \<Rightarrow>
          (case arg kw ''shift'' (PyInt 0) of
             PyInt shift \<Rightarrow> HueStep_call bgr2hsv hsv2bgr h img shift
           | PyFloat shift \<Rightarrow> HueStep_call_float bgr2hsv hsv2bgr h img shift)
      | BoxBlurStep \<Rightarrow>
          (case arg kw ''kernel_size'' (PyInt 5) of
             PyInt kernel_size \<Rightarrow> BoxBlurStep_call h img kernel_size
           | PyFloat kernel_size \<Rightarrow> BoxBlurStep_call_float h img kernel_size)
      | UnsharpMaskStep \<Rightarrow>
          (case arg kw ''blur_size'' (PyInt 5) of
             PyInt blur_size \<Rightarrow>
               UnsharpMaskStep_call h img (float_arg kw ''strength'' 1) blur_size
           | PyFloat blur_size \<Rightarrow>
               UnsharpMaskStep_call_float h img (float_arg kw ''strength'' 1) blur_size)
      | CropStep \<Rightarrow>
          CropStep_call_py h img (arg kw ''x'' (PyInt 0)) (arg kw ''y'' (PyInt 0))
            (arg kw ''width'' (PyInt 100)) (arg kw ''height'' (PyInt 100))
      | RotateStep \<Rightarrow>
          (case arg kw ''angle'' (PyInt 0) of
             PyInt angle \<Rightarrow> RotateStep_call h img angle
           | PyFloat angle \<Rightarrow> RotateStep_call_float h img angle))"

definition call_process :: "(px3 \<Rightarrow> px3) \<Rightarrow> (px3 \<Rightarrow> px3) \<Rightarrow> step \<Rightarrow> heap \<Rightarrow> addr
    \<Rightarrow> (string \<times> pyval) list \<Rightarrow> (error + addr) \<times> heap" where
  \<comment> \<open>\<open>step.process(result, **params)\<close>\<close>
  "call_process bgr2hsv hsv2bgr s h img params =
     (case bind_kwargs (param_names s) params of
        Inl e \<Rightarrow> (Inl e, h)
      | Inr kw \<Rightarrow> step_process bgr2hsv hsv2bgr s h img kw)"

record step_config =
  step :: "string option"
  params :: "(string \<times> pyval) list option"

fun run_pipeline :: "(px3 \<Rightarrow> px3) \<Rightarrow> (px3 \<Rightarrow> px3) \<Rightarrow> heap \<Rightarrow> addr \<Rightarrow> step_config list
    \<Rightarrow> (error + addr) \<times> heap" where
  "run_pipeline bgr2hsv hsv2bgr h result [] = (Inr result, h)"
| "run_pipeline bgr2hsv hsv2bgr h result (sc # rest) =
     (let step_name = step sc;
          ps = (case params sc of None \<Rightarrow> [] | Some d \<Rightarrow> d)
      in case (case step_name of None \<Rightarrow> None | Some n \<Rightarrow> available_steps n) of
           None \<Rightarrow>
             (Inl (ValueError (''Unknown step: '' @ (case step_name of None \<Rightarrow> ''None'' | Some n \<Rightarrow> n))), h)
         | Some s \<Rightarrow>
             (case call_process bgr2hsv hsv2bgr s h result ps of
                (Inl e, h) \<Rightarrow> (Inl e, h)
              | (Inr r, h) \<Rightarrow> run_pipeline bgr2hsv hsv2bgr h r rest))"

definition process_image :: "(px3 \<Rightarrow> px3) \<Rightarrow> (px3 \<Rightarrow> px3) \<Rightarrow> heap \<Rightarrow> addr \<Rightarrow> step_config list
    \<Rightarrow> (error + addr) \<times> heap" where
  "process_image bgr2hsv hsv2bgr h img pipeline =
     (case new h (h ! img) of (result, h) \<Rightarrow> run_pipeline bgr2hsv hsv2bgr h result pipeline)"

section \<open>Reading an array; the specification's notions\<close>

definition height :: "'a ndarray \<Rightarrow> nat" where
  "height a = (case a of A2 rows \<Rightarrow> length rows | A3 rows \<Rightarrow> length rows)"

definition width :: "'a ndarray \<Rightarrow> nat" where
  "width a = (case a of A2 rows \<Rightarrow> width_of rows | A3 rows \<Rightarrow> width_of rows)"

definition channels :: "'a ndarray \<Rightarrow> nat" where
  "channels a = (case a of A2 rows \<Rightarrow> 1 | A3 rows \<Rightarrow> shape_c rows)"

definition pixel :: "'a ndarray \<Rightarrow> nat \<Rightarrow> nat \<Rightarrow> nat \<Rightarrow> 'a" where
  \<comment> \<open>The value of channel \<open>ch\<close> at row \<open>y\<close>, column \<open>x\<close>; a grey image has channel 0 only.\<close>
  "pixel a y x ch = (case a of A2 rows \<Rightarrow> rows ! y ! x | A3 rows \<Rightarrow> rows ! y ! x ! ch)"

definition nearest_90 :: "int \<Rightarrow> int" where
  \<comment> \<open>\<open>round(angle / 90) * 90\<close>; Python's \<open>round\<close> sends a half to the even integer.\<close>
  "nearest_90 a = round_half_even (of_int a / 90) * 90"

declare RotateStep_process.simps [simp del]
declare RotateStep_call.simps [simp del]
definition clamp :: "int \<Rightarrow> int \<Rightarrow> int \<Rightarrow> int" where
  "clamp lo hi v = max lo (min v hi)"

definition sub_rect :: "'a list list \<Rightarrow> nat \<Rightarrow> nat \<Rightarrow> nat \<Rightarrow> nat \<Rightarrow> 'a list list" where
  \<comment> \<open>The rows \<open>y1 \<le> r < y2\<close> of the columns \<open>x1 \<le> c < x2\<close>.\<close>
  "sub_rect rows x1 y1 x2 y2 = map (\<lambda>r. map (\<lambda>c. rows ! r ! c) [x1..<x2]) [y1..<y2]"

definition crop_spec_rows :: "'a list list \<Rightarrow> int \<Rightarrow> int \<Rightarrow> int \<Rightarrow> int \<Rightarrow> 'a list list" where
  "crop_spec_rows rows x y cw ch =
     (let h = int (length rows); w = int (width_of rows);
          x1 = clamp 0 (w - 1) x;
          y1 = clamp 0 (h - 1) y;
          x2 = clamp 0 w (x1 + cw);
          y2 = clamp 0 h (y1 + ch)
      in sub_rect rows (nat x1) (nat y1) (nat x2) (nat y2))"

fun Crop_spec :: "'a ndarray \<Rightarrow> int \<Rightarrow> int \<Rightarrow> int \<Rightarrow> int \<Rightarrow> 'a ndarray" where
  \<comment> \<open>The crop as the specification words it: the origin clamped into the image, the
      opposite corner clamped to the image bounds, the rectangle between them.\<close>
  "Crop_spec (A2 rows) x y cw ch = A2 (crop_spec_rows rows x y cw ch)"
| "Crop_spec (A3 rows) x y cw ch = A3 (crop_spec_rows rows x y cw ch)"
definition frame :: "heap \<Rightarrow> addr \<Rightarrow> (error + addr) \<times> heap \<Rightarrow> bool" where
  \<comment> \<open>A call on the array at \<open>a\<close> leaves every array of the store as it was, and what it
      returns is the array it was given or one allocated during the call.\<close>
  "frame h a out =
     (case out of (res, h') \<Rightarrow>
        length h \<le> length h' \<and> take (length h) h' = h
        \<and> (case res of Inl e \<Rightarrow> True | Inr r \<Rightarrow> r < length h' \<and> (r = a \<or> length h \<le> r)))"

definition returns :: "(error + addr) \<times> heap \<Rightarrow> error + u8 ndarray" where
  \<comment> \<open>What the caller of a step sees: the error, or the array at the address returned.\<close>
  "returns out = (case out of (Inl e, h') \<Rightarrow> Inl e | (Inr r, h') \<Rightarrow> Inr (get_u8 (h' ! r)))"
definition raster :: "'a ndarray \<Rightarrow> bool" where
  \<comment> \<open>A raster buffer: a rectangular array with at least one row, one column and one channel.\<close>
  "raster img = (rect img \<and> 0 < height img \<and> 0 < width img \<and> 0 < channels img)"

definition shaped :: "nat \<Rightarrow> nat \<Rightarrow> nat \<Rightarrow> 'a list list list \<Rightarrow> bool" where
  "shaped h w c a =
     (length a = h \<and> (\<forall>row \<in> set a. length row = w \<and> (\<forall>p \<in> set row. length p = c)))"

definition padded_channel :: "u8 list list list \<Rightarrow> nat \<Rightarrow> nat \<Rightarrow> rat list list" where
  \<comment> \<open>\<open>padded\<close> in the loop of the blur, for one channel.\<close>
  "padded_channel image3 pad channel =
     edge1 pad (map (edge1 pad) (map (map of_u8) (get_chan channel image3)))"

definition blur_value :: "rat list list \<Rightarrow> nat \<Rightarrow> nat \<Rightarrow> nat \<Rightarrow> rat" where
  \<comment> \<open>The float32 value the blur stores in \<open>output\<close> at row \<open>y\<close>, column \<open>x\<close>, from the
      table \<open>cumsum\<close> of the channel.\<close>
  "blur_value cumsum k y x =
     fl32 (fl32 (fl32 (fl32 (cumsum ! (y + k) ! (x + k) - cumsum ! y ! (x + k))
                       - cumsum ! (y + k) ! x)
                 + cumsum ! y ! x)
           / fl32 (of_nat (k * k)))"

definition running :: "rat \<Rightarrow> nat \<Rightarrow> rat" where
  \<comment> \<open>Entry \<open>j\<close> of \<open>np.cumsum\<close> over a row of float32 values that are all \<open>c\<close>.\<close>
  "running c j = ((\<lambda>s. fl32 (s + c)) ^^ j) c"

definition clamp_index :: "int \<Rightarrow> nat \<Rightarrow> nat" where
  \<comment> \<open>Edge replication: a read outside \<open>[0, n)\<close> goes to the nearest border pixel.\<close>
  "clamp_index i n = nat (clamp 0 (int n - 1) i)"

definition window_sum :: "u8 ndarray \<Rightarrow> nat \<Rightarrow> nat \<Rightarrow> nat \<Rightarrow> nat \<Rightarrow> nat" where
  "window_sum img k y x ch =
     (\<Sum>dy\<leftarrow>[0..<k]. \<Sum>dx\<leftarrow>[0..<k].
        unat (pixel img (clamp_index (int y + int dy - int (k div 2)) (height img))
                        (clamp_index (int x + int dx - int (k div 2)) (width img)) ch))"

definition brute_force_mean :: "u8 ndarray \<Rightarrow> nat \<Rightarrow> nat \<Rightarrow> nat \<Rightarrow> nat \<Rightarrow> rat" where
  \<comment> \<open>The blur as the specification words it: the mean of the \<open>k \<times> k\<close> neighbourhood of a
      pixel, channel by channel, with edge replication.\<close>
  "brute_force_mean img k y x ch = of_nat (window_sum img k y x ch) / of_nat (k * k)"

definition ndim :: "'a ndarray \<Rightarrow> nat" where
  \<comment> \<open>\<open>len(a.shape)\<close>\<close>
  "ndim a = (case a of A2 _ \<Rightarrow> 2 | A3 _ \<Rightarrow> 3)"

definition unsharp_value :: "rat \<Rightarrow> u8 \<Rightarrow> u8 \<Rightarrow> u8" where
  \<comment> \<open>One pixel of \<open>clip(image + strength * (image - blurred), 0, 255)\<close> stored as uint8, the
      arithmetic in float32.\<close>
  "unsharp_value strength p b =
     astype_u8 (np_clip (fl32 (of_u8 p + fl32 (fl32 strength * fl32 (of_u8 p - of_u8 b)))) 0 255)"

section \<open>Rotate\<close>

lemma mult90_mod360: "((k::int) * 90) mod 360 \<in> {0, 90, 180, 270}"
proof -
  have "(k * 90) mod 360 = 90 * (k mod 4)"
    using mult_mod_right [of 90 k 4] by (simp add: mult.commute)
  moreover have "k mod 4 \<in> {0, 1, 2, 3}"
    by (simp; presburger)
  ultimately show ?thesis by auto
qed

lemma rotate_exact:
  assumes "angle mod 360 \<in> {0, 90, 180, 270}"
  shows "RotateStep_process img angle =
     (if angle mod 360 = 0 then img
      else if angle mod 360 = 90 then cv2_rotate img ROTATE_90_CLOCKWISE
      else if angle mod 360 = 180 then cv2_rotate img ROTATE_180
      else cv2_rotate img ROTATE_90_COUNTERCLOCKWISE)"
  using assms by (subst RotateStep_process.simps) (auto simp: Let_def)

lemma rotate_other:
  assumes "angle mod 360 \<notin> {0, 90, 180, 270}"
  shows "RotateStep_process img angle = RotateStep_process img (nearest_90 (angle mod 360))"
  using assms by (subst RotateStep_process.simps) (auto simp: Let_def nearest_90_def)

lemma round_half_even_near: "\<bar>of_int (round_half_even r) - r\<bar> \<le> 1 / 2"
proof -
  have "of_int \<lfloor>r\<rfloor> \<le> r" "r < of_int \<lfloor>r\<rfloor> + 1" by linarith+
  then show ?thesis
    unfolding round_half_even_def Let_def by (auto simp: abs_le_iff)
qed

lemma nearest_90_near: "\<bar>nearest_90 a - a\<bar> \<le> 45"
proof -
  have "\<bar>of_int (round_half_even (of_int a / 90)) - (of_int a / 90 :: rat)\<bar> \<le> 1 / 2"
    by (rule round_half_even_near)
  then have "\<bar>of_int (round_half_even (of_int a / 90)) * 90 - (of_int a :: rat)\<bar> \<le> 45"
    by (simp add: abs_le_iff field_simps)
  then have "\<bar>(of_int (nearest_90 a - a) :: rat)\<bar> \<le> of_int 45"
    by (simp add: nearest_90_def)
  then show ?thesis
    by (metis of_int_abs of_int_le_iff)
qed

lemma width_of_map_upt: "0 < n \<Longrightarrow> width_of (map f [0..<n]) = length (f 0)"
  by (cases n) (simp_all add: width_of_def upt_rec)

lemma get_chan_dims:
  "length (get_chan ch a) = length a" "width_of (get_chan ch a) = width_of a"
  by (cases a; simp add: get_chan_def width_of_def)+

text \<open>
  Claim C8. For every array and every integer angle, \<open>RotateStep.process\<close> reduces the
  angle modulo 360. At 0, 90, 180 and 270 it returns the array itself, the clockwise
  quarter turn, the half turn and the counter-clockwise quarter turn; a quarter turn of
  an array with columns swaps height and width. Any other reduced angle is replaced by
  \<open>round(angle / 90) * 90\<close>, a multiple of 90 at most 45 away, and the function is called
  again with it; the result is always an array, never an error.
\<close>

theorem RotateStep_process_dispatch:
  "RotateStep_process img angle =
     (let a = angle mod 360;
          n = (if a \<in> {0, 90, 180, 270} then a else nearest_90 a mod 360)
      in if n = 0 then img
         else if n = 90 then cv2_rotate img ROTATE_90_CLOCKWISE
         else if n = 180 then cv2_rotate img ROTATE_180
         else cv2_rotate img ROTATE_90_COUNTERCLOCKWISE)
   \<and> (angle mod 360 \<notin> {0, 90, 180, 270} \<longrightarrow>
        RotateStep_process img angle = RotateStep_process img (nearest_90 (angle mod 360)))
   \<and> 90 dvd nearest_90 (angle mod 360)
   \<and> \<bar>nearest_90 (angle mod 360) - angle mod 360\<bar> \<le> 45
   \<and> (0 < width img \<longrightarrow>
        height (cv2_rotate img ROTATE_90_CLOCKWISE) = width img
      \<and> width (cv2_rotate img ROTATE_90_CLOCKWISE) = height img
      \<and> height (cv2_rotate img ROTATE_90_COUNTERCLOCKWISE) = width img
      \<and> width (cv2_rotate img ROTATE_90_COUNTERCLOCKWISE) = height img
      \<and> height (cv2_rotate img ROTATE_180) = height img
      \<and> (0 < height img \<longrightarrow> width (cv2_rotate img ROTATE_180) = width img))"
proof (intro conjI)
  show "RotateStep_process img angle =
     (let a = angle mod 360;
          n = (if a \<in> {0, 90, 180, 270} then a else nearest_90 a mod 360)
      in if n = 0 then img
         else if n = 90 then cv2_rotate img ROTATE_90_CLOCKWISE
         else if n = 180 then cv2_rotate img ROTATE_180
         else cv2_rotate img ROTATE_90_COUNTERCLOCKWISE)"
  proof (cases "angle mod 360 \<in> {0, 90, 180, 270}")
    case True
    then show ?thesis using rotate_exact [OF True, of img] by (auto simp: Let_def)
  next
    case False
    have m: "nearest_90 (angle mod 360) mod 360 \<in> {0, 90, 180, 270}"
      unfolding nearest_90_def by (rule mult90_mod360)
    show ?thesis
      using False rotate_other [OF False, of img] rotate_exact [OF m, of img] m
      by (auto simp: Let_def)
  qed
  show "angle mod 360 \<notin> {0, 90, 180, 270} \<longrightarrow>
        RotateStep_process img angle = RotateStep_process img (nearest_90 (angle mod 360))"
    using rotate_other by blast
  show "90 dvd nearest_90 (angle mod 360)"
    by (simp add: nearest_90_def)
  show "\<bar>nearest_90 (angle mod 360) - angle mod 360\<bar> \<le> 45"
    by (rule nearest_90_near)
  show "0 < width img \<longrightarrow>
        height (cv2_rotate img ROTATE_90_CLOCKWISE) = width img
      \<and> width (cv2_rotate img ROTATE_90_CLOCKWISE) = height img
      \<and> height (cv2_rotate img ROTATE_90_COUNTERCLOCKWISE) = width img
      \<and> width (cv2_rotate img ROTATE_90_COUNTERCLOCKWISE) = height img
      \<and> height (cv2_rotate img ROTATE_180) = height img
      \<and> (0 < height img \<longrightarrow> width (cv2_rotate img ROTATE_180) = width img)"
    by (cases img) (auto simp: height_def width_def Let_def width_of_map_upt get_chan_dims)
qed

lemma nearest_90_100: "nearest_90 100 = 90"
  by code_simp

theorem RotateStep_process_dispatch_witness:
  "(100 :: int) mod 360 \<notin> {0, 90, 180, 270}
   \<and> 0 < width (A2 [[1, 2, 3], [4, 5, 6 :: u8]])
   \<and> 0 < height (A2 [[1, 2, 3], [4, 5, 6 :: u8]])
   \<and> RotateStep_process (A2 [[1, 2, 3], [4, 5, 6 :: u8]]) 100 = A2 [[4, 1], [5, 2], [6, 3]]
   \<and> height (cv2_rotate (A2 [[1, 2, 3], [4, 5, 6 :: u8]]) ROTATE_90_CLOCKWISE) = 3
   \<and> width (cv2_rotate (A2 [[1, 2, 3], [4, 5, 6 :: u8]]) ROTATE_90_CLOCKWISE) = 2"
  using RotateStep_process_dispatch [of "A2 [[1, 2, 3], [4, 5, 6 :: u8]]" 100]
  by (simp add: nearest_90_100 Let_def height_def width_def width_of_def upt_rec del: mod_mod_trivial)

section \<open>Crop\<close>

lemma rect2_nth: "rect2 rows \<Longrightarrow> i < length rows \<Longrightarrow> length (rows ! i) = width_of rows"
  by (simp add: rect2_def list_all_length)

lemma drop_take_nth: "b \<le> length xs \<Longrightarrow> drop a (take b xs) = map ((!) xs) [a..<b]"
proof -
  assume b: "b \<le> length xs"
  have "take b xs = map ((!) xs) [0..<b]"
    using b by (metis map_nth take_map take_upt add_0)
  then show ?thesis
    by (simp add: drop_map)
qed

lemma py_slice_nth:
  assumes "0 \<le> a" "0 \<le> b" "b \<le> int (length xs)"
  shows "py_slice xs a b = map ((!) xs) [nat a..<nat b]"
proof -
  have "[nat (min a (int (length xs)))..<nat b] = [nat a..<nat b]"
    using assms by (cases "a \<le> int (length xs)") (auto simp: min_def)
  then show ?thesis
    using assms by (simp add: py_slice_def Let_def drop_take_nth min_absorb1)
qed

lemma crop_rows_spec:
  assumes r: "rect2 rows"
    and x: "0 \<le> clamp 0 (int (width_of rows) - 1) x + cw"
    and y: "0 \<le> clamp 0 (int (length rows) - 1) y + ch"
  shows "crop_rows rows x y cw ch = crop_spec_rows rows x y cw ch"
proof -
  define x1 where "x1 = clamp 0 (int (width_of rows) - 1) x"
  define y1 where "y1 = clamp 0 (int (length rows) - 1) y"
  define x2 where "x2 = min (x1 + cw) (int (width_of rows))"
  define y2 where "y2 = min (y1 + ch) (int (length rows))"
  have x1: "0 \<le> x1" and y1: "0 \<le> y1"
    by (simp_all add: x1_def y1_def clamp_def)
  have x2: "0 \<le> x2" "x2 \<le> int (width_of rows)" "clamp 0 (int (width_of rows)) (x1 + cw) = x2"
    using x by (auto simp: x2_def x1_def clamp_def)
  have y2: "0 \<le> y2" "y2 \<le> int (length rows)" "clamp 0 (int (length rows)) (y1 + ch) = y2"
    using y by (auto simp: y2_def y1_def clamp_def)
  have outer: "py_slice rows y1 y2 = map ((!) rows) [nat y1..<nat y2]"
    using y1 y2 by (intro py_slice_nth) auto
  have inner: "py_slice (rows ! i) x1 x2 = map ((!) (rows ! i)) [nat x1..<nat x2]"
    if "i < nat y2" for i
  proof -
    have "i < length rows" using that y2 by linarith
    then have "length (rows ! i) = width_of rows" using r by (rule rect2_nth [rotated])
    then show ?thesis using x1 x2 by (intro py_slice_nth) auto
  qed
  have "crop_rows rows x y cw ch = map (\<lambda>row. py_slice row x1 x2) (py_slice rows y1 y2)"
    by (simp add: crop_rows_def Let_def x1_def y1_def x2_def y2_def clamp_def)
  also have "\<dots> = map (\<lambda>i. py_slice (rows ! i) x1 x2) [nat y1..<nat y2]"
    by (simp add: outer)
  also have "\<dots> = map (\<lambda>i. map ((!) (rows ! i)) [nat x1..<nat x2]) [nat y1..<nat y2]"
    using inner by simp
  also have "\<dots> = crop_spec_rows rows x y cw ch"
    using x2(3) y2(3) by (simp add: crop_spec_rows_def Let_def sub_rect_def x1_def y1_def)
  finally show ?thesis .
qed

lemma crop_spec_rows_100:
  assumes "length rows = 100" "width_of rows = 100"
  shows "crop_spec_rows rows (- 5) (- 5) 10 10 = sub_rect rows 0 0 10 10"
  using assms by (simp add: crop_spec_rows_def Let_def clamp_def)

text \<open>
  Claim C6, as the code has it. \<open>CropStep.process\<close> clamps \<open>x\<close> into \<open>[0, w - 1]\<close> and
  \<open>y\<close> into \<open>[0, h - 1]\<close> and cuts the far corner \<open>x + width\<close>, \<open>y + height\<close> (taken from
  the clamped origin) down to \<open>w\<close> and \<open>h\<close>. Whenever that corner is not negative, as for
  every width and height that are not negative, the result is the rectangle of the
  specification, returned in a new array that leaves the store's other arrays as they
  were; on a 100 by 100 image \<open>Crop(x=-5, y=-5, width=10, height=10)\<close> is the 10 by 10
  rectangle at the origin.
\<close>

theorem CropStep_process_spec:
  assumes "rect img"
    and "0 \<le> clamp 0 (int (width img) - 1) x + cw"
    and "0 \<le> clamp 0 (int (height img) - 1) y + ch"
  shows "CropStep_process img x y cw ch = Crop_spec img x y cw ch
    \<and> CropStep_call h a x y cw ch
        = (Inr (length h), h @ [U8 (CropStep_process (get_u8 (h ! a)) x y cw ch)])
    \<and> (height img = 100 \<and> width img = 100 \<longrightarrow>
         height (CropStep_process img (- 5) (- 5) 10 10) = 10
       \<and> width (CropStep_process img (- 5) (- 5) 10 10) = 10
       \<and> (\<forall>i < 10. \<forall>j < 10. \<forall>k.
            pixel (CropStep_process img (- 5) (- 5) 10 10) i j k = pixel img i j k))"
proof (intro conjI impI)
  show "CropStep_process img x y cw ch = Crop_spec img x y cw ch"
    using assms by (cases img) (simp_all add: crop_rows_spec width_def height_def rect3_def)
  show "CropStep_call h a x y cw ch
        = (Inr (length h), h @ [U8 (CropStep_process (get_u8 (h ! a)) x y cw ch)])"
    by (simp add: CropStep_call_def new_def)
next
  assume hw: "height img = 100 \<and> width img = 100"
  have c: "0 \<le> clamp 0 (int (width img) - 1) (- 5) + 10"
      "0 \<le> clamp 0 (int (height img) - 1) (- 5) + 10"
    using hw by (simp_all add: clamp_def)
  have e: "CropStep_process img (- 5) (- 5) 10 10 = Crop_spec img (- 5) (- 5) 10 10"
    using assms(1) c by (cases img) (simp_all add: crop_rows_spec width_def height_def rect3_def)
  show "height (CropStep_process img (- 5) (- 5) 10 10) = 10"
    unfolding e using hw
    by (cases img) (simp_all add: crop_spec_rows_100 height_def width_def sub_rect_def)
  show "width (CropStep_process img (- 5) (- 5) 10 10) = 10"
    unfolding e using hw
    by (cases img)
      (simp_all add: crop_spec_rows_100 height_def width_def sub_rect_def width_of_map_upt)
  show "\<forall>i < 10. \<forall>j < 10. \<forall>k.
      pixel (CropStep_process img (- 5) (- 5) 10 10) i j k = pixel img i j k"
    unfolding e using hw
    by (cases img) (simp_all add: crop_spec_rows_100 height_def width_def sub_rect_def pixel_def)
qed

lemma rect_replicate: "rect (A2 (replicate n (replicate m v)))"
  by (cases n) (simp_all add: rect2_def width_of_def list_all_iff)

theorem CropStep_process_spec_witness:
  "rect (A2 (replicate 100 (replicate 100 (7 :: u8))))
   \<and> 0 \<le> clamp 0 (int (width (A2 (replicate 100 (replicate 100 (7 :: u8))))) - 1) (- 5) + 10
   \<and> 0 \<le> clamp 0 (int (height (A2 (replicate 100 (replicate 100 (7 :: u8))))) - 1) (- 5) + 10
   \<and> height (A2 (replicate 100 (replicate 100 (7 :: u8)))) = 100
   \<and> width (A2 (replicate 100 (replicate 100 (7 :: u8)))) = 100
   \<and> CropStep_process (A2 (replicate 100 (replicate 100 (7 :: u8)))) (- 5) (- 5) 10 10
       = Crop_spec (A2 (replicate 100 (replicate 100 7))) (- 5) (- 5) 10 10
   \<and> height (CropStep_process (A2 (replicate 100 (replicate 100 (7 :: u8)))) (- 5) (- 5) 10 10) = 10
   \<and> width (CropStep_process (A2 (replicate 100 (replicate 100 (7 :: u8)))) (- 5) (- 5) 10 10) = 10"
proof -
  let ?I = "A2 (replicate 100 (replicate 100 (7 :: u8)))"
  have r: "rect ?I"
    by (rule rect_replicate)
  have w: "width ?I = 100"
    by (simp add: width_def width_of_def numeral_eq_Suc)
  have hh: "height ?I = 100"
    by (simp add: height_def)
  have c1: "0 \<le> clamp 0 (int (width ?I) - 1) (- 5) + 10"
    by (simp add: w clamp_def)
  have c2: "0 \<le> clamp 0 (int (height ?I) - 1) (- 5) + 10"
    by (simp add: hh clamp_def)
  note t = CropStep_process_spec [OF r c1 c2, of "[]" 0]
  have t1: "CropStep_process ?I (- 5) (- 5) 10 10 = Crop_spec ?I (- 5) (- 5) 10 10"
    using t by (rule conjunct1)
  have t2: "height (CropStep_process ?I (- 5) (- 5) 10 10) = 10"
    using t w hh by blast
  have t3: "width (CropStep_process ?I (- 5) (- 5) 10 10) = 10"
    using t w hh by blast
  show ?thesis
    using r c1 c2 hh w t1 t2 t3 by blast
qed

text \<open>
  The claim as it is stated, for all integers, fails where the far corner is negative:
  the code does not raise it to 0, and Python reads a negative slice bound from the
  end. On a row of three pixels \<open>Crop(x=0, y=0, width=-1, height=1)\<close> returns the first
  two, not the empty rectangle.
\<close>

theorem CropStep_process_negative_width:
  "CropStep_process (A2 [[1, 2, 3 :: u8]]) 0 0 (- 1) 1 = A2 [[1, 2]]
   \<and> Crop_spec (A2 [[1, 2, 3 :: u8]]) 0 0 (- 1) 1 = A2 [[]]
   \<and> CropStep_process (A2 [[1, 2, 3 :: u8]]) 0 0 (- 1) 1 \<noteq> Crop_spec (A2 [[1, 2, 3]]) 0 0 (- 1) 1"
  by (simp add: crop_rows_def crop_spec_rows_def py_slice_def width_of_def clamp_def sub_rect_def
      Let_def)

section \<open>The store is only extended\<close>

lemma frame_new: "frame h a (case new h v of (r, h') \<Rightarrow> (Inr r, h'))"
  by (simp add: frame_def new_def)

lemma frame_BrightnessStep: "frame h a (BrightnessStep_call h a factor)"
  by (simp add: frame_def BrightnessStep_call_def new_def)

lemma frame_SaturationStep: "frame h a (SaturationStep_call f g h a factor)"
  by (simp add: frame_def SaturationStep_call_def new_def Let_def split: sum.splits)

lemma frame_HueStep: "frame h a (HueStep_call f g h a shift)"
  by (simp add: frame_def HueStep_call_def new_def Let_def split: sum.splits)

lemma blur_loop_call_frame:
  "blur_loop_call image3 hh w k pad chs out h = (res, h') \<Longrightarrow>
     length h' = length h \<and> (\<forall>i. i \<noteq> out \<longrightarrow> h' ! i = h ! i)"
proof (induction chs arbitrary: h)
  case Nil
  then show ?case by simp
next
  case (Cons ch chs)
  show ?case
  proof (cases "blur_channel image3 hh w k pad ch")
    case (Inl e)
    with Cons.prems show ?thesis by simp
  next
    case (Inr vals)
    with Cons.prems Cons.IH [of "h[out := F32 (A3 (put_chan ch vals (rows3 (get_f32 (h ! out)))))]"]
    show ?thesis by simp
  qed
qed

lemma blur_loop_call_take:
  assumes "blur_loop_call image3 hh w k pad chs (length h) (h @ [c]) = (res, h')"
  shows "length h' = Suc (length h) \<and> take (length h) h' = h"
proof -
  from blur_loop_call_frame [OF assms]
  have l: "length h' = Suc (length h)" and n: "\<forall>i. i \<noteq> length h \<longrightarrow> h' ! i = (h @ [c]) ! i"
    by simp_all
  have "take (length h) h' = h"
    using l n by (intro nth_equalityI) (auto simp: nth_append)
  with l show ?thesis by simp
qed

lemma frame_BoxBlurStep: "frame h a (BoxBlurStep_call h a kernel_size)"
proof -
  let ?k = "if kernel_size mod 2 = 0 then kernel_size + 1 else kernel_size"
  let ?i3 = "rows3 (get_u8 (h ! a))"
  obtain res h' where r: "blur_loop_call ?i3 (length ?i3) (width_of ?i3) ?k (?k div 2)
      [0..<shape_c ?i3] (length h) (h @ [F32 (A3 (map (map (map (\<lambda>_. 0))) ?i3))]) = (res, h')"
    by (cases "blur_loop_call ?i3 (length ?i3) (width_of ?i3) ?k (?k div 2)
      [0..<shape_c ?i3] (length h) (h @ [F32 (A3 (map (map (map (\<lambda>_. 0))) ?i3))])") auto
  from blur_loop_call_take [OF r] have t: "length h' = Suc (length h)" "take (length h) h' = h"
    by simp_all
  show ?thesis
    using r t by (cases res) (simp_all add: frame_def BoxBlurStep_call_def new_def Let_def)
qed

lemma frame_UnsharpMaskStep: "frame h a (UnsharpMaskStep_call h a strength blur_size)"
proof -
  obtain res h1 where b: "BoxBlurStep_call h a blur_size = (res, h1)"
    by (cases "BoxBlurStep_call h a blur_size") auto
  have f: "length h \<le> length h1" "take (length h) h1 = h"
    using frame_BoxBlurStep [of h a blur_size] b by (simp_all add: frame_def)
  have t: "take (length h) (h1 @ xs) = h" for xs
    using f by simp
  show ?thesis
    using b f t
    by (cases res) (auto simp: frame_def UnsharpMaskStep_call_def new_def split: sum.splits)
qed

lemma frame_CropStep: "frame h a (CropStep_call h a x y cw ch)"
  by (simp add: frame_def CropStep_call_def new_def)

lemma RotateStep_call_exact:
  assumes "angle mod 360 \<in> {0, 90, 180, 270}"
  shows "RotateStep_call h a angle =
     (if angle mod 360 = 0 then (Inr a, h)
      else (Inr (length h), h @ [U8 (RotateStep_process (get_u8 (h ! a)) angle)]))"
  using assms
  by (subst RotateStep_call.simps, subst RotateStep_process.simps) (auto simp: Let_def new_def)

lemma RotateStep_call_other:
  assumes "angle mod 360 \<notin> {0, 90, 180, 270}"
  shows "RotateStep_call h a angle = RotateStep_call h a (nearest_90 (angle mod 360))"
  using assms by (subst RotateStep_call.simps) (auto simp: Let_def nearest_90_def)

lemma frame_RotateStep:
  assumes "a < length h"
  shows "frame h a (RotateStep_call h a angle)"
proof -
  have e: "frame h a (RotateStep_call h a n)" if "n mod 360 \<in> {0, 90, 180, 270}" for n
    using that assms by (auto simp: RotateStep_call_exact frame_def)
  show ?thesis
  proof (cases "angle mod 360 \<in> {0, 90, 180, 270}")
    case True
    then show ?thesis by (rule e)
  next
    case False
    have "nearest_90 (angle mod 360) mod 360 \<in> {0, 90, 180, 270}"
      unfolding nearest_90_def by (rule mult90_mod360)
    then show ?thesis
      using e RotateStep_call_other [OF False] by simp
  qed
qed

lemma frame_error: "frame h a (Inl e, h)"
  by (simp add: frame_def)

lemma frame_HueStep_float: "frame h a (HueStep_call_float f g h a shift)"
  by (simp add: frame_def HueStep_call_float_def new_def Let_def split: sum.splits)

lemma frame_BoxBlurStep_float: "frame h a (BoxBlurStep_call_float h a kernel_size)"
  by (simp add: frame_def BoxBlurStep_call_float_def new_def Let_def)

lemma frame_unsharp_of_blurred:
  assumes "b < length h"
  shows "frame h b (unsharp_of_blurred h a strength b)"
  using assms by (simp add: frame_def unsharp_of_blurred_def new_def split: sum.splits)

lemma frame_UnsharpMaskStep_float: "frame h a (UnsharpMaskStep_call_float h a strength blur_size)"
proof -
  obtain res h1 where b: "BoxBlurStep_call_float h a blur_size = (res, h1)"
    by (cases "BoxBlurStep_call_float h a blur_size") auto
  have f: "frame h a (res, h1)"
    using frame_BoxBlurStep_float [of h a blur_size] b by simp
  show ?thesis
  proof (cases res)
    case (Inl e)
    with b f show ?thesis by (simp add: UnsharpMaskStep_call_float_def)
  next
    case (Inr r)
    with f have r: "r < length h1" and l: "length h \<le> length h1" and t: "take (length h) h1 = h"
      by (simp_all add: frame_def)
    obtain res2 h2 where u: "unsharp_of_blurred h1 a strength r = (res2, h2)"
      by (cases "unsharp_of_blurred h1 a strength r") auto
    from frame_unsharp_of_blurred [OF r, of a strength] u
    have l2: "length h1 \<le> length h2" and t2: "take (length h1) h2 = h1"
      and r2: "\<And>q. res2 = Inr q \<Longrightarrow> q < length h2 \<and> (q = r \<or> length h1 \<le> q)"
      by (auto simp: frame_def)
    have n: "res2 = Inr q \<Longrightarrow> length h1 \<le> q" for q
      using u by (auto simp: unsharp_of_blurred_def new_def split: sum.splits)
    have "take (length h) h2 = take (length h) (take (length h1) h2)"
      using l by (simp add: min_absorb1)
    then have t3: "take (length h) h2 = h"
      using t t2 by simp
    have "frame h a (res2, h2)"
      using l l2 t3 r2 n by (cases res2) (auto simp: frame_def)
    with b Inr u show ?thesis by (simp add: UnsharpMaskStep_call_float_def)
  qed
qed

lemma frame_CropStep_py: "frame h a (CropStep_call_py h a x y cw ch)"
  by (simp add: frame_def CropStep_call_py_def new_def split: sum.splits ndarray.splits)

lemma frame_RotateStep_float:
  assumes "a < length h"
  shows "frame h a (RotateStep_call_float h a angle)"
  using assms frame_RotateStep [OF assms]
  by (auto simp: RotateStep_call_float_def Let_def frame_def new_def)

lemma frame_call_process:
  assumes "a < length h"
  shows "frame h a (call_process f g s h a ps)"
  using assms
  by (cases s)
    (auto simp: call_process_def step_process_def frame_error frame_BrightnessStep frame_SaturationStep
      frame_HueStep frame_BoxBlurStep frame_UnsharpMaskStep frame_RotateStep
      frame_HueStep_float frame_BoxBlurStep_float frame_UnsharpMaskStep_float
      frame_CropStep_py frame_RotateStep_float
      split: sum.splits pyval.splits)

lemma frame_run_pipeline:
  assumes "r < length h"
  shows "frame h r (run_pipeline f g h r pl)"
  using assms
proof (induction pl arbitrary: h r)
  case Nil
  then show ?case by (simp add: frame_def)
next
  case (Cons sc pl)
  show ?case
  proof (cases "case step sc of None \<Rightarrow> None | Some n \<Rightarrow> available_steps n")
    case None
    then show ?thesis by (simp add: frame_def Let_def)
  next
    case (Some s)
    obtain res h1 where c: "call_process f g s h r (case params sc of None \<Rightarrow> [] | Some d \<Rightarrow> d)
        = (res, h1)"
      by (cases "call_process f g s h r (case params sc of None \<Rightarrow> [] | Some d \<Rightarrow> d)") auto
    have f1: "frame h r (res, h1)"
      unfolding c [symmetric] by (rule frame_call_process [OF Cons.prems])
    show ?thesis
    proof (cases res)
      case (Inl e)
      with Some c f1 show ?thesis by (simp add: Let_def frame_def)
    next
      case (Inr r1)
      with f1 have r1: "r1 < length h1" "r1 = r \<or> length h \<le> r1"
        and h1: "length h \<le> length h1" "take (length h) h1 = h"
        by (simp_all add: frame_def)
      obtain res2 h2 where p: "run_pipeline f g h1 r1 pl = (res2, h2)"
        by (cases "run_pipeline f g h1 r1 pl") auto
      from Cons.IH [OF r1(1)] p have f2: "frame h1 r1 (res2, h2)"
        by simp
      then have h2: "length h1 \<le> length h2" "take (length h1) h2 = h1"
        by (simp_all add: frame_def)
      have "take (length h) h2 = take (length h) (take (length h1) h2)"
        using h1(1) by (simp add: min_absorb1)
      then have t: "take (length h) h2 = h"
        using h2 h1 by simp
      have "frame h r (res2, h2)"
        using f2 r1 h1 h2 t by (cases res2) (auto simp: frame_def)
      with Some c Inr p show ?thesis by (simp add: Let_def)
    qed
  qed
qed

text \<open>
  Claim C5. \<open>process_image\<close> leaves the array it is given as it was, for every store,
  image and pipeline, whether the run ends in a result or in an error: the run works on
  a copy made first, every step returns the array it was given or one it allocated, and
  every write in place goes to an array allocated by the step that writes. So every
  array that existed before the call is unchanged after it, and the result is never
  the caller's array.
\<close>

theorem process_image_preserves_input:
  assumes "a < length h"
  shows "snd (process_image f g h a pipeline) ! a = h ! a
    \<and> take (length h) (snd (process_image f g h a pipeline)) = h
    \<and> (\<forall>r. fst (process_image f g h a pipeline) = Inr r \<longrightarrow>
          r \<noteq> a \<and> length h \<le> r \<and> r < length (snd (process_image f g h a pipeline)))"
proof -
  obtain res h' where p: "run_pipeline f g (h @ [h ! a]) (length h) pipeline = (res, h')"
    by (cases "run_pipeline f g (h @ [h ! a]) (length h) pipeline") auto
  have "frame (h @ [h ! a]) (length h) (res, h')"
    using frame_run_pipeline [of "length h" "h @ [h ! a]" f g pipeline] p by simp
  then have l: "Suc (length h) \<le> length h'" and t: "take (Suc (length h)) h' = h @ [h ! a]"
    and r: "\<And>r. res = Inr r \<Longrightarrow> r < length h' \<and> length h \<le> r"
    by (auto simp: frame_def)
  have "take (length h) h' = take (length h) (take (Suc (length h)) h')"
    by (simp add: min_absorb1)
  then have t': "take (length h) h' = h"
    using t by simp
  have "h' ! a = take (length h) h' ! a"
    using assms by simp
  then have n: "h' ! a = h ! a"
    using t' by simp
  have e: "process_image f g h a pipeline = (res, h')"
    using p by (simp add: process_image_def new_def)
  show ?thesis
    unfolding e using n t' r assms by auto
qed

theorem process_image_preserves_input_witness:
  "(0 :: nat) < length [U8 (A3 [[[1, 2, 3]]])]
   \<and> snd (process_image id id [U8 (A3 [[[1, 2, 3]]])] 0
        [\<lparr>step = Some ''brightness'', params = Some [(''factor'', PyFloat 2)]\<rparr>]) ! 0
       = U8 (A3 [[[1, 2, 3]]])
   \<and> fst (process_image id id [U8 (A3 [[[1, 2, 3]]])] 0
        [\<lparr>step = Some ''brightness'', params = Some [(''factor'', PyFloat 2)]\<rparr>]) = Inr 3"
  using process_image_preserves_input [of 0 "[U8 (A3 [[[1, 2, 3]]])]" id id
      "[\<lparr>step = Some ''brightness'', params = Some [(''factor'', PyFloat 2)]\<rparr>]"]
  by (simp add: process_image_def new_def available_steps_def call_process_def step_process_def
      bind_kwargs_def BrightnessStep_call_def Let_def)

section \<open>The steps on the store and on values agree\<close>


lemma returns_SaturationStep:
  "returns (SaturationStep_call f g h a factor) = SaturationStep_process f g (get_u8 (h ! a)) factor"
  by (simp add: returns_def SaturationStep_call_def SaturationStep_process_def new_def get_u8_def
      get_f32_def Let_def nth_append split: sum.splits)

lemma returns_HueStep:
  "returns (HueStep_call f g h a shift) = HueStep_process f g (get_u8 (h ! a)) shift"
  by (simp add: returns_def HueStep_call_def HueStep_process_def new_def get_u8_def
      get_f32_def Let_def nth_append split: sum.splits)

lemma blur_loop_call_value:
  assumes "out < length h" "h ! out = F32 (A3 outp)"
  shows "case blur_loop image3 hh w k pad chs outp of
        Inl e \<Rightarrow> fst (blur_loop_call image3 hh w k pad chs out h) = Inl e
      | Inr outp' \<Rightarrow>
          blur_loop_call image3 hh w k pad chs out h = (Inr (), h[out := F32 (A3 outp')])"
  using assms
proof (induction chs arbitrary: h outp)
  case Nil
  then show ?case by (simp, metis list_update_id)
next
  case (Cons ch chs)
  show ?case
  proof (cases "blur_channel image3 hh w k pad ch")
    case (Inl e)
    then show ?thesis by simp
  next
    case (Inr vals)
    let ?h = "h[out := F32 (A3 (put_chan ch vals outp))]"
    have "out < length ?h" "?h ! out = F32 (A3 (put_chan ch vals outp))"
      using Cons.prems by simp_all
    from Cons.IH [OF this] Inr Cons.prems show ?thesis
      by (simp add: get_f32_def rows3_def split: sum.splits)
  qed
qed

lemma returns_BoxBlurStep:
  "returns (BoxBlurStep_call h a kernel_size) = BoxBlurStep_process (get_u8 (h ! a)) kernel_size"
proof -
  define k where "k = (if kernel_size mod 2 = 0 then kernel_size + 1 else kernel_size)"
  define i3 where "i3 = rows3 (get_u8 (h ! a))"
  define z where "z = map (map (map (\<lambda>_. 0 :: rat))) i3"
  define c where "c = shape_c i3"
  define lc where "lc = blur_loop_call i3 (length i3) (width_of i3) k (k div 2) [0..<c] (length h)
      (h @ [F32 (A3 z)])"
  define lp where "lp = blur_loop i3 (length i3) (width_of i3) k (k div 2) [0..<c] z"
  have i3: "(case get_u8 (h ! a) of A2 rows \<Rightarrow> map (map (\<lambda>p. [p])) rows | A3 rows \<Rightarrow> rows) = i3"
    by (simp add: rows3_def i3_def split: ndarray.splits)
  have v: "case lp of Inl e \<Rightarrow> fst lc = Inl e
      | Inr outp' \<Rightarrow> lc = (Inr (), (h @ [F32 (A3 z)])[length h := F32 (A3 outp')])"
    unfolding lp_def lc_def by (rule blur_loop_call_value) simp_all
  have p: "BoxBlurStep_process (get_u8 (h ! a)) kernel_size =
     (case lp of Inl e \<Rightarrow> Inl e | Inr outp \<Rightarrow> Inr (blur_finish c outp))"
    unfolding BoxBlurStep_process_def Let_def i3 k_def z_def c_def lp_def by simp
  have q: "BoxBlurStep_call h a kernel_size =
     (case fst lc of
        Inl e \<Rightarrow> (Inl e, snd lc)
      | Inr u \<Rightarrow> (Inr (length (snd lc)),
          snd lc @ [U8 (blur_finish c (rows3 (get_f32 (snd lc ! length h))))]))"
    unfolding BoxBlurStep_call_def Let_def new_def k_def z_def c_def i3_def lc_def
    by (simp add: case_prod_beta split: sum.splits)
  show ?thesis
  proof (cases lp)
    case (Inl e)
    with v have "fst lc = Inl e" by simp
    with Inl show ?thesis unfolding p q by (simp add: returns_def)
  next
    case (Inr outp')
    with v have "lc = (Inr (), (h @ [F32 (A3 z)])[length h := F32 (A3 outp')])" by simp
    with Inr show ?thesis
      unfolding p q by (simp add: returns_def get_u8_def get_f32_def rows3_def nth_append)
  qed
qed

lemma returns_UnsharpMaskStep:
  assumes "a < length h"
  shows "returns (UnsharpMaskStep_call h a strength blur_size)
    = UnsharpMaskStep_process (get_u8 (h ! a)) strength blur_size"
proof -
  obtain res h1 where b: "BoxBlurStep_call h a blur_size = (res, h1)"
    by (cases "BoxBlurStep_call h a blur_size") auto
  have f: "length h \<le> length h1" "take (length h) h1 = h"
    using frame_BoxBlurStep [of h a blur_size] b by (simp_all add: frame_def)
  have "h1 ! a = take (length h) h1 ! a"
    using assms by simp
  then have a: "h1 ! a = h ! a"
    using f by simp
  have r: "returns (res, h1) = BoxBlurStep_process (get_u8 (h ! a)) blur_size"
    using returns_BoxBlurStep [of h a blur_size] b by simp
  show ?thesis
  proof (cases res)
    case (Inl e)
    with r have "BoxBlurStep_process (get_u8 (h ! a)) blur_size = Inl e"
      by (simp add: returns_def)
    with Inl b show ?thesis
      by (simp add: returns_def UnsharpMaskStep_call_def UnsharpMaskStep_process_def)
  next
    case (Inr blurred)
    with r have p: "BoxBlurStep_process (get_u8 (h ! a)) blur_size = Inr (get_u8 (h1 ! blurred))"
      by (simp add: returns_def)
    show ?thesis
      using b Inr p a assms f
      by (simp add: returns_def UnsharpMaskStep_call_def UnsharpMaskStep_process_def new_def
          get_u8_def get_f32_def nth_append split: sum.splits)
  qed
qed

lemma returns_CropStep:
  "returns (CropStep_call h a x y cw ch) = Inr (CropStep_process (get_u8 (h ! a)) x y cw ch)"
  by (simp add: returns_def CropStep_call_def new_def get_u8_def)

lemma returns_RotateStep:
  "returns (RotateStep_call h a angle) = Inr (RotateStep_process (get_u8 (h ! a)) angle)"
proof -
  have e: "returns (RotateStep_call h a n) = Inr (RotateStep_process (get_u8 (h ! a)) n)"
    if "n mod 360 \<in> {0, 90, 180, 270}" for n
    using that rotate_exact [OF that, of "get_u8 (h ! a)"]
    by (auto simp: RotateStep_call_exact returns_def get_u8_def)
  show ?thesis
  proof (cases "angle mod 360 \<in> {0, 90, 180, 270}")
    case True
    then show ?thesis by (rule e)
  next
    case False
    have "nearest_90 (angle mod 360) mod 360 \<in> {0, 90, 180, 270}"
      unfolding nearest_90_def by (rule mult90_mod360)
    from e [OF this] show ?thesis
      unfolding RotateStep_call_other [OF False] rotate_other [OF False] .
  qed
qed

section \<open>The executor\<close>

lemma py_min_int [simp]: "py_min (PyInt a) (PyInt b) = PyInt (min a b)"
  by (simp add: py_min_def py_num_def min_def)

lemma py_max_int [simp]: "py_max (PyInt a) (PyInt b) = PyInt (max a b)"
  by (simp add: py_max_def py_num_def max_def)

lemma py_add_int [simp]: "py_add (PyInt a) (PyInt b) = PyInt (a + b)"
  by (simp add: py_add_def)

lemma crop_rows_py_int:
  "crop_rows_py rows (PyInt x) (PyInt y) (PyInt cw) (PyInt ch) = Inr (crop_rows rows x y cw ch)"
  by (simp add: crop_rows_py_def crop_rows_def Let_def)

lemma CropStep_call_py_int:
  "CropStep_call_py h img (PyInt x) (PyInt y) (PyInt cw) (PyInt ch) = CropStep_call h img x y cw ch"
  by (cases "get_u8 (h ! img)") (simp_all add: CropStep_call_py_def CropStep_call_def crop_rows_py_int)



lemma run_pipeline_append:
  "run_pipeline f g h r (pre @ rest) =
     (case run_pipeline f g h r pre of
        (Inl e, h1) \<Rightarrow> (Inl e, h1)
      | (Inr r1, h1) \<Rightarrow> run_pipeline f g h1 r1 rest)"
proof (induction pre arbitrary: h r)
  case Nil
  then show ?case by simp
next
  case (Cons sc pre)
  show ?case
  proof (cases "case step sc of None \<Rightarrow> None | Some n \<Rightarrow> available_steps n")
    case None
    then show ?thesis by (simp add: Let_def)
  next
    case (Some s)
    then show ?thesis
      using Cons.IH by (simp add: Let_def split: prod.splits sum.splits)
  qed
qed

lemma available_steps_None:
  "n \<notin> {''brightness'', ''saturation'', ''hue'', ''box_blur'', ''unsharp_mask'', ''crop'', ''rotate''}
    \<Longrightarrow> available_steps n = None"
  by (simp add: available_steps_def)

lemma run_pipeline_unknown:
  assumes "step sc = Some n" "available_steps n = None"
  shows "run_pipeline f g h r (sc # post) = (Inl (ValueError (''Unknown step: '' @ n)), h)"
  using assms by (simp add: Let_def)

text \<open>
  Claim C3, as the code has it. A pipeline with an invocation whose step name is none
  of the seven registered names never returns an image, and nothing after that
  invocation is applied: the outcome, store included, is that of the pipeline cut off
  behind it. When the invocations before it succeed, the error is the one raised for
  the unknown name, \<open>ValueError("Unknown step: <name>")\<close> in the code, and the store is
  as those invocations left it.
\<close>

theorem process_image_unknown_step:
  assumes "step sc = Some n"
    and "n \<notin> {''brightness'', ''saturation'', ''hue'', ''box_blur'', ''unsharp_mask'', ''crop'',
              ''rotate''}"
  shows "process_image f g h a (pre @ sc # post) = process_image f g h a (pre @ [sc])
    \<and> (\<exists>e. fst (process_image f g h a (pre @ sc # post)) = Inl e)
    \<and> (\<forall>r h1. process_image f g h a pre = (Inr r, h1) \<longrightarrow>
          process_image f g h a (pre @ sc # post)
            = (Inl (ValueError (''Unknown step: '' @ n)), h1))"
proof -
  have u: "run_pipeline f g h' r' (sc # rest) = (Inl (ValueError (''Unknown step: '' @ n)), h')"
    for h' r' rest
    using assms by (intro run_pipeline_unknown available_steps_None) auto
  have p: "process_image f g h a pl = run_pipeline f g (h @ [h ! a]) (length h) pl" for pl
    by (simp add: process_image_def new_def)
  obtain res h1 where r: "run_pipeline f g (h @ [h ! a]) (length h) pre = (res, h1)"
    by (cases "run_pipeline f g (h @ [h ! a]) (length h) pre") auto
  show ?thesis
    unfolding p run_pipeline_append [of f g _ _ pre] r
    by (cases res) (simp_all add: u del: run_pipeline.simps)
qed

theorem process_image_unknown_step_witness:
  "step \<lparr>step = Some ''sepia'', params = None\<rparr> = Some ''sepia''
   \<and> ''sepia'' \<notin> {''brightness'', ''saturation'', ''hue'', ''box_blur'', ''unsharp_mask'', ''crop'',
                   ''rotate''}
   \<and> process_image id id [U8 (A2 [[7]])] 0 [\<lparr>step = Some ''crop'', params = None\<rparr>]
       = (Inr 2, [U8 (A2 [[7]]), U8 (A2 [[7]]), U8 (A2 [[7]])])
   \<and> process_image id id [U8 (A2 [[7]])] 0
        [\<lparr>step = Some ''crop'', params = None\<rparr>, \<lparr>step = Some ''sepia'', params = None\<rparr>,
         \<lparr>step = Some ''rotate'', params = Some [(''angle'', PyInt 90)]\<rparr>]
       = (Inl (ValueError ''Unknown step: sepia''), [U8 (A2 [[7]]), U8 (A2 [[7]]), U8 (A2 [[7]])])"
proof -
  have c: "process_image id id [U8 (A2 [[7]])] 0 [\<lparr>step = Some ''crop'', params = None\<rparr>]
       = (Inr 2, [U8 (A2 [[7]]), U8 (A2 [[7]]), U8 (A2 [[7]])])"
    by (simp add: process_image_def new_def available_steps_def call_process_def step_process_def
        bind_kwargs_def arg_def CropStep_call_py_int CropStep_call_def get_u8_def crop_rows_def
        py_slice_def width_of_def Let_def)
  have s: "step \<lparr>step = Some ''sepia'', params = None\<rparr> = Some ''sepia''"
    by simp
  have n: "''sepia'' \<notin> {''brightness'', ''saturation'', ''hue'', ''box_blur'', ''unsharp_mask'',
      ''crop'', ''rotate''}"
    by simp
  from process_image_unknown_step [OF s n, of id id "[U8 (A2 [[7]])]" 0
      "[\<lparr>step = Some ''crop'', params = None\<rparr>]"
      "[\<lparr>step = Some ''rotate'', params = Some [(''angle'', PyInt 90)]\<rparr>]"] c
  have "process_image id id [U8 (A2 [[7]])] 0
        ([\<lparr>step = Some ''crop'', params = None\<rparr>] @ \<lparr>step = Some ''sepia'', params = None\<rparr> #
         [\<lparr>step = Some ''rotate'', params = Some [(''angle'', PyInt 90)]\<rparr>])
       = (Inl (ValueError (''Unknown step: '' @ ''sepia'')), [U8 (A2 [[7]]), U8 (A2 [[7]]), U8 (A2 [[7]])])"
    by blast
  with c s n show ?thesis by simp
qed

text \<open>
  The claim as it is stated fails for a pipeline in which an earlier invocation raises:
  the run ends there, with that error. Here the first invocation passes a keyword that
  \<open>BrightnessStep.process\<close> does not have.
\<close>

theorem process_image_earlier_error:
  "fst (process_image id id [U8 (A3 [[[1, 2, 3]]])] 0
     [\<lparr>step = Some ''brightness'', params = Some [(''foo'', PyInt 1)]\<rparr>,
      \<lparr>step = Some ''sepia'', params = None\<rparr>])
     = Inl (TypeError ''process() got an unexpected keyword argument'')
   \<and> fst (process_image id id [U8 (A3 [[[1, 2, 3]]])] 0
     [\<lparr>step = Some ''brightness'', params = Some [(''foo'', PyInt 1)]\<rparr>,
      \<lparr>step = Some ''sepia'', params = None\<rparr>])
     \<noteq> Inl (ValueError ''Unknown step: sepia'')"
  by (simp add: process_image_def new_def available_steps_def call_process_def bind_kwargs_def
      Let_def)



section \<open>float32 rounding\<close>

lemma pow2_pos: "0 < pow2 e"
  by (simp add: pow2_def)

lemma pow2_Suc: "pow2 (e + 1) = 2 * pow2 e"
proof (cases "0 \<le> e")
  case True
  then show ?thesis by (simp add: pow2_def nat_add_distrib)
next
  case False
  then have "nat (- e) = Suc (nat (- e - 1))" by simp
  then have "(2 :: rat) ^ nat (- e) = 2 * 2 ^ nat (- (e + 1))"
    by (metis power_Suc minus_add_distrib add.commute uminus_add_conv_diff)
  with False show ?thesis by (auto simp: pow2_def)
qed

lemma pow2_minus1: "pow2 (e - 1) = pow2 e / 2"
  using pow2_Suc [of "e - 1"] by simp

lemma pow2_nat: "pow2 (int k) = 2 ^ k"
  by (simp add: pow2_def)

lemma ilog2_bounds:
  assumes "0 < x"
  shows "pow2 (ilog2 x) \<le> x \<and> x < pow2 (ilog2 x + 1)"
proof (cases "1 \<le> x")
  case True
  define n where "n = nat \<lfloor>x\<rfloor>"
  have n: "0 < n" "of_nat n \<le> x" "x < of_nat n + 1"
    using True unfolding n_def by (simp_all add: le_floor_iff) linarith+
  from floorlog_bounds [of n 2] n(1)
  have b: "2 ^ (floorlog 2 n - 1) \<le> n" "n < 2 ^ floorlog 2 n" by simp_all
  have fl: "0 < floorlog 2 n" using n(1) by (simp add: floorlog_def)
  have e: "ilog2 x = int (floorlog 2 n - 1)"
    using True fl by (simp add: ilog2_def n_def)
  have "(of_nat (2 ^ (floorlog 2 n - 1)) :: rat) \<le> of_nat n"
    using b(1) by (rule of_nat_mono)
  then have "(2 :: rat) ^ (floorlog 2 n - 1) \<le> of_nat n"
    by simp
  then have "(2 :: rat) ^ (floorlog 2 n - 1) \<le> x"
    using n(2) by (rule order_trans)
  then have l: "pow2 (ilog2 x) \<le> x"
    unfolding e pow2_nat .
  have "n + 1 \<le> 2 ^ floorlog 2 n" using b(2) by simp
  then have "(of_nat (n + 1) :: rat) \<le> of_nat (2 ^ floorlog 2 n)"
    by (rule of_nat_mono)
  then have "x < 2 ^ floorlog 2 n"
    using n(3) by simp
  moreover have "ilog2 x + 1 = int (floorlog 2 n)"
    using e fl by simp
  ultimately have "x < pow2 (ilog2 x + 1)"
    by (simp add: pow2_nat)
  with l show ?thesis by simp
next
  case False
  define y where "y = 1 / x"
  have y: "1 < y" "x = 1 / y" using False assms by (simp_all add: y_def)
  define m where "m = nat (\<lceil>y\<rceil> - 1)"
  have c2: "2 \<le> \<lceil>y\<rceil>" using y(1) by linarith
  then have m: "0 < m" "int m = \<lceil>y\<rceil> - 1" by (simp_all add: m_def)
  have ym: "of_nat m < y" "y \<le> of_nat m + 1"
  proof -
    have "(of_int (\<lceil>y\<rceil> - 1) :: rat) < y" by linarith
    then show "of_nat m < y" using m(2) by (metis of_int_of_nat_eq)
    have "y \<le> of_int \<lceil>y\<rceil>" by linarith
    also have "\<dots> = of_int (int m + 1)" using m(2) by simp
    finally show "y \<le> of_nat m + 1" by simp
  qed
  define L where "L = floorlog 2 m"
  from floorlog_bounds [of m 2] m(1)
  have b: "2 ^ (L - 1) \<le> m" "m < 2 ^ L" by (simp_all add: L_def)
  have L: "0 < L" using m(1) by (simp add: L_def floorlog_def)
  have e: "ilog2 x = - int L"
    using False by (simp add: ilog2_def L_def m_def y_def)
  have "m + 1 \<le> 2 ^ L" using b(2) by simp
  then have "(of_nat (m + 1) :: rat) \<le> of_nat (2 ^ L)" by (rule of_nat_mono)
  then have yL: "y \<le> 2 ^ L" using ym(2) by simp
  have "(of_nat (2 ^ (L - 1)) :: rat) \<le> of_nat m" using b(1) by (rule of_nat_mono)
  then have "(2 :: rat) ^ (L - 1) \<le> of_nat m" by simp
  then have yL1: "2 ^ (L - 1) < y" using ym(1) by (rule order_le_less_trans)
  have l: "pow2 (ilog2 x) \<le> x"
  proof -
    have "1 / 2 ^ L \<le> 1 / y"
      using yL y(1) by (intro divide_left_mono) simp_all
    moreover have "pow2 (ilog2 x) = 1 / 2 ^ L"
      unfolding e using L by (simp add: pow2_def)
    ultimately show ?thesis unfolding y_def by simp
  qed
  have u: "x < pow2 (ilog2 x + 1)"
  proof -
    have "1 / y < 1 / 2 ^ (L - 1)"
      using yL1 y(1) by (intro divide_strict_left_mono) simp_all
    moreover have "pow2 (ilog2 x + 1) = 1 / 2 ^ (L - 1)"
      unfolding e
    proof (cases "L = 1")
      case True
      then show "pow2 (- int L + 1) = 1 / 2 ^ (L - 1)" by (simp add: pow2_def)
    next
      case False
      then have "nat (int L - 1) = L - 1" "\<not> 0 \<le> 1 - int L" using L by simp_all
      then show "pow2 (- int L + 1) = 1 / 2 ^ (L - 1)" by (simp add: pow2_def)
    qed
    ultimately show ?thesis unfolding y_def by simp
  qed
  from l u show ?thesis by simp
qed

lemma round_half_even_int: "round_half_even (of_int k) = k"
  by (simp add: round_half_even_def)

lemma fl32_0: "fl32 0 = 0"
  by (simp add: fl32_def)

lemma fl32_minus: "fl32 (- x) = - fl32 x"
  by (simp add: fl32_def Let_def)

lemma fl32_exact:
  assumes "x \<noteq> 0" "\<bar>x\<bar> / pow2 (ilog2 \<bar>x\<bar> - 23) = of_int k"
  shows "fl32 x = x"
proof -
  have "fl32 x = sgn x * (\<bar>x\<bar> / pow2 (ilog2 \<bar>x\<bar> - 23)) * pow2 (ilog2 \<bar>x\<bar> - 23)"
    using assms by (simp add: fl32_def Let_def round_half_even_int)
  also have "\<dots> = sgn x * \<bar>x\<bar>"
    using pow2_pos [of "ilog2 \<bar>x\<bar> - 23"] by simp
  finally show ?thesis by (simp add: sgn_mult_abs)
qed

lemma pow2_le_mono: "a \<le> b \<Longrightarrow> pow2 a \<le> pow2 b"
proof -
  assume "a \<le> b"
  then obtain k where b: "b = a + int k"
    by (metis zle_iff_zadd)
  have "pow2 a \<le> pow2 (a + int k)"
  proof (induction k)
    case 0
    then show ?case by simp
  next
    case (Suc k)
    have "a + int (Suc k) = a + int k + 1" by simp
    then have "pow2 (a + int (Suc k)) = 2 * pow2 (a + int k)"
      using pow2_Suc [of "a + int k"] by metis
    with Suc pow2_pos [of "a + int k"] show ?case by simp
  qed
  then show ?thesis by (simp add: b)
qed

lemma pow2_add_nat: "pow2 (e + int k) = pow2 e * 2 ^ k"
proof (induction k)
  case 0
  then show ?case by simp
next
  case (Suc k)
  have "e + int (Suc k) = e + int k + 1" by simp
  then have "pow2 (e + int (Suc k)) = 2 * pow2 (e + int k)"
    using pow2_Suc [of "e + int k"] by metis
  with Suc show ?case by simp
qed

lemma ilog2_le:
  assumes "0 < x" "x < pow2 b"
  shows "ilog2 x < b"
proof (rule ccontr)
  assume "\<not> ilog2 x < b"
  then have "pow2 b \<le> pow2 (ilog2 x)" by (intro pow2_le_mono) simp
  with ilog2_bounds [OF assms(1)] assms(2) show False by simp
qed

lemma fl32_of_nat:
  assumes "n \<le> 2 ^ 24"
  shows "fl32 (of_nat n) = of_nat n"
proof (cases "n = 0")
  case True
  then show ?thesis by (simp add: fl32_0)
next
  case False
  define x :: rat where "x = of_nat n"
  have x: "0 < x" "\<bar>x\<bar> = x" using False by (simp_all add: x_def)
  define e where "e = ilog2 x"
  have b: "pow2 e \<le> x" "x < pow2 (e + 1)"
    using ilog2_bounds [OF x(1)] by (simp_all add: e_def)
  have e0: "0 \<le> e"
  proof (rule ccontr)
    assume "\<not> 0 \<le> e"
    then have "pow2 (e + 1) \<le> pow2 0" by (intro pow2_le_mono) simp
    then have "x < 1" using b(2) by (simp add: pow2_def)
    then show False using False by (simp add: x_def)
  qed
  show ?thesis
  proof (cases "e \<le> 23")
    case True
    then obtain j where j: "23 = e + int j"
      by (metis zle_iff_zadd)
    have "pow2 (e - 23) * 2 ^ j = pow2 (e - 23 + int j)"
      by (simp add: pow2_add_nat)
    also have "\<dots> = 1" using j by (simp add: pow2_def)
    finally have "x / pow2 (e - 23) = x * 2 ^ j"
      using pow2_pos [of "e - 23"] by (simp add: field_simps)
    also have "\<dots> = of_int (int n * 2 ^ j)"
      by (simp add: x_def)
    finally have "\<bar>x\<bar> / pow2 (ilog2 \<bar>x\<bar> - 23) = of_int (int n * 2 ^ j)"
      by (simp add: x(2) e_def)
    then have "fl32 x = x"
      using x(1) by (intro fl32_exact [where k = "int n * 2 ^ j"]) simp_all
    then show ?thesis by (simp add: x_def)
  next
    case False
    then have "pow2 24 \<le> pow2 e" by (intro pow2_le_mono) simp
    then have "2 ^ 24 \<le> x" using b(1) by (simp add: pow2_def)
    moreover have "x \<le> 2 ^ 24"
      using assms unfolding x_def by (metis of_nat_le_iff of_nat_numeral of_nat_power)
    ultimately have x24: "x = 2 ^ 24" by simp
    have "e < 25"
      unfolding e_def using x(1) by (intro ilog2_le) (simp_all add: x24 pow2_def)
    with False have e: "e = 24" by simp
    have "x / pow2 (e - 23) = of_int (2 ^ 23)"
      unfolding e by (simp add: pow2_def x24)
    then have "\<bar>x\<bar> / pow2 (ilog2 \<bar>x\<bar> - 23) = of_int (2 ^ 23)"
      unfolding x(2) e_def .
    then have "fl32 x = x"
      using x(1) by (intro fl32_exact [where k = "2 ^ 23"]) simp_all
    then show ?thesis by (simp add: x_def)
  qed
qed

lemma fl32_of_int:
  assumes "\<bar>i\<bar> \<le> 2 ^ 24"
  shows "fl32 (of_int i) = of_int i"
proof (cases "0 \<le> i")
  case True
  then have "nat i \<le> 2 ^ 24" using assms by (simp add: nat_le_iff)
  from fl32_of_nat [OF this] True show ?thesis by simp
next
  case False
  then have "nat (- i) \<le> 2 ^ 24" using assms by (simp add: nat_le_iff)
  from fl32_of_nat [OF this] False have "fl32 (of_int (- i)) = of_int (- i)" by simp
  then show ?thesis using fl32_minus [of "of_int i"] by simp
qed

lemma fl32_error:
  "\<bar>fl32 x - x\<bar> \<le> \<bar>x\<bar> / 2 ^ 24"
proof (cases "x = 0")
  case True
  then show ?thesis by (simp add: fl32_0)
next
  case False
  define a where "a = \<bar>x\<bar>"
  define e where "e = ilog2 a"
  define u where "u = pow2 (e - 23)"
  have a: "0 < a" using False by (simp add: a_def)
  have u: "0 < u" by (simp add: u_def pow2_pos)
  have b: "pow2 e \<le> a" using ilog2_bounds [OF a] by (simp add: e_def)
  have "pow2 (e - 24 + int 24) = pow2 (e - 24) * 2 ^ 24"
    by (rule pow2_add_nat)
  then have h: "u / 2 = pow2 e / 2 ^ 24"
    using pow2_minus1 [of "e - 23"] by (simp add: u_def)
  have r: "\<bar>of_int (round_half_even (a / u)) - a / u\<bar> \<le> 1 / 2"
    by (rule round_half_even_near)
  have "x = sgn x * a"
    by (simp add: a_def sgn_mult_abs)
  then have "fl32 x - x = sgn x * of_int (round_half_even (a / u)) * u - sgn x * a"
    using False by (simp add: fl32_def Let_def a_def e_def u_def)
  then have "fl32 x - x = sgn x * (of_int (round_half_even (a / u)) * u - a)"
    by (simp add: algebra_simps)
  moreover have "of_int (round_half_even (a / u)) * u - a = (of_int (round_half_even (a / u)) - a / u) * u"
    using u by (simp add: field_simps)
  ultimately have "\<bar>fl32 x - x\<bar> = \<bar>of_int (round_half_even (a / u)) - a / u\<bar> * u"
    using False u by (simp add: abs_mult abs_sgn_eq)
  also have "\<dots> \<le> 1 / 2 * u"
    using r u by (intro mult_right_mono) simp_all
  also have "\<dots> = pow2 e / 2 ^ 24" using h by simp
  also have "\<dots> \<le> a / 2 ^ 24" using b by (simp add: divide_right_mono)
  finally show ?thesis by (simp add: a_def)
qed

section \<open>The identity parameters\<close>

lemma of_u8_range: "0 \<le> of_u8 p" "of_u8 p \<le> 255"
proof -
  have "uint p < 2 ^ LENGTH(8)" by (rule uint_lt2p)
  then have "uint p \<le> 255" by simp
  then have "(of_int (uint p) :: rat) \<le> of_int 255" by (rule of_int_le_iff [THEN iffD2])
  then show "of_u8 p \<le> 255" unfolding of_u8_def by simp
  have "0 \<le> uint p" by simp
  then have "(of_int 0 :: rat) \<le> of_int (uint p)" by (rule of_int_le_iff [THEN iffD2])
  then show "0 \<le> of_u8 p" unfolding of_u8_def by simp
qed

lemma fl32_of_u8: "fl32 (of_u8 p) = of_u8 p"
proof -
  have "uint p < 2 ^ LENGTH(8)" by (rule uint_lt2p)
  then have "\<bar>uint p\<bar> \<le> 2 ^ 24" by simp
  then show ?thesis unfolding of_u8_def by (rule fl32_of_int)
qed


lemma trunc_of_int: "trunc (of_int i) = i"
  by (simp add: trunc_def)

lemma astype_u8_of_u8: "astype_u8 (of_u8 p) = p"
  unfolding astype_u8_def of_u8_def trunc_of_int by (rule word_of_int_uint)

lemma np_clip_of_u8: "np_clip (of_u8 p) 0 255 = of_u8 p"
  using of_u8_range [of p] by (simp add: np_clip_def)

























section \<open>The blur, pixel by pixel\<close>

lemma blur_channel_value:
  assumes "0 \<le> pad" "concat (get_chan ch image3) \<noteq> []" "0 \<le> ks"
  shows "blur_channel image3 h w ks pad ch =
     Inr (map (\<lambda>y. map (\<lambda>x.
        blur_value (integral_table h w (nat pad) (padded_channel image3 (nat pad) ch)) (nat ks) y x)
        [0..<w]) [0..<h])"
proof -
  have c: "concat (map (map of_u8) (get_chan ch image3)) \<noteq> []"
    using assms(2) by (simp add: map_concat [symmetric])
  have k: "(of_int ks :: rat) = of_nat (nat ks)"
    using assms(3) by (metis of_int_of_nat_eq nat_0_le)
  show ?thesis
    using assms(1) c
    by (simp add: blur_channel_def np_pad_edge_def Let_def box_sums_def blur_value_def
        padded_channel_def k comp_def)
qed

lemma put_chan_nth:
  assumes "shaped h w c outp" "length vals = h" "\<forall>r \<in> set vals. length r = w" "y < h" "x < w"
  shows "put_chan ch vals outp ! y ! x = (outp ! y ! x)[ch := vals ! y ! x]"
proof -
  have l: "length outp = h" "length (outp ! y) = w" "length (vals ! y) = w"
    using assms by (auto simp: shaped_def)
  show ?thesis
    using assms(2,4,5) l by (simp add: put_chan_def)
qed

lemma put_chan_shaped:
  assumes "shaped h w c outp" "length vals = h" "\<forall>r \<in> set vals. length r = w"
  shows "shaped h w c (put_chan ch vals outp)"
proof -
  have "length (put_chan ch vals outp) = h"
    using assms by (simp add: put_chan_def shaped_def)
  moreover have "length row = w \<and> (\<forall>p \<in> set row. length p = c)"
    if "row \<in> set (put_chan ch vals outp)" for row
  proof -
    from that obtain r v where rv: "(r, v) \<in> set (zip outp vals)"
      and row: "row = map2 (\<lambda>p v. p[ch := v]) r v"
      by (auto simp: put_chan_def)
    have r: "r \<in> set outp" and v: "v \<in> set vals"
      using rv by (auto dest: set_zip_leftD set_zip_rightD)
    have lr: "length r = w" "\<forall>p \<in> set r. length p = c" "length v = w"
      using assms r v by (auto simp: shaped_def)
    have "\<forall>p \<in> set row. length p = c"
      using lr(2) unfolding row by (auto dest: set_zip_leftD)
    then show ?thesis using lr by (simp add: row)
  qed
  ultimately show ?thesis by (simp add: shaped_def)
qed

lemma blur_loop_value:
  assumes "shaped h w c outp" "distinct chs"
    and "\<forall>ch \<in> set chs. blur_channel image3 h w ks pad ch = Inr (V ch)
          \<and> length (V ch) = h \<and> (\<forall>r \<in> set (V ch). length r = w)"
  shows "\<exists>out. blur_loop image3 h w ks pad chs outp = Inr out \<and> shaped h w c out
     \<and> (\<forall>y < h. \<forall>x < w. \<forall>ch < c.
          out ! y ! x ! ch = (if ch \<in> set chs then V ch ! y ! x else outp ! y ! x ! ch))"
  using assms
proof (induction chs arbitrary: outp)
  case Nil
  then show ?case by simp
next
  case (Cons a chs)
  let ?o = "put_chan a (V a) outp"
  have va: "blur_channel image3 h w ks pad a = Inr (V a)" "length (V a) = h"
    "\<forall>r \<in> set (V a). length r = w"
    using Cons.prems(3) by simp_all
  have s: "shaped h w c ?o"
    using Cons.prems(1) va(2,3) by (rule put_chan_shaped)
  have d: "distinct chs" "a \<notin> set chs" using Cons.prems(2) by simp_all
  have r: "\<forall>ch \<in> set chs. blur_channel image3 h w ks pad ch = Inr (V ch)
          \<and> length (V ch) = h \<and> (\<forall>r \<in> set (V ch). length r = w)"
    using Cons.prems(3) by simp
  from Cons.IH [OF s d(1) r] obtain out where
    o: "blur_loop image3 h w ks pad chs ?o = Inr out" "shaped h w c out"
    and v: "\<forall>y < h. \<forall>x < w. \<forall>ch < c.
          out ! y ! x ! ch = (if ch \<in> set chs then V ch ! y ! x else ?o ! y ! x ! ch)"
    by blast
  have "out ! y ! x ! ch = (if ch \<in> set (a # chs) then V ch ! y ! x else outp ! y ! x ! ch)"
    if "y < h" "x < w" "ch < c" for y x ch
  proof -
    have p: "?o ! y ! x = (outp ! y ! x)[a := V a ! y ! x]"
      using Cons.prems(1) va(2,3) that(1,2) by (rule put_chan_nth)
    have "outp ! y \<in> set outp" using that(1) Cons.prems(1) by (simp add: shaped_def)
    then have "outp ! y ! x \<in> set (outp ! y)"
      using that(2) Cons.prems(1) by (simp add: shaped_def)
    then have l: "length (outp ! y ! x) = c"
      using \<open>outp ! y \<in> set outp\<close> Cons.prems(1) by (simp add: shaped_def)
    show ?thesis
      using v that p l d(2) by (auto simp: nth_list_update)
  qed
  with o va(1) show ?case by simp
qed

lemma shaped_nth:
  assumes "shaped h w c a" "y < h" "x < w"
  shows "length (a ! y) = w" "length (a ! y ! x) = c"
proof -
  have r: "a ! y \<in> set a" using assms(1,2) by (simp add: shaped_def)
  then show w: "length (a ! y) = w" using assms(1) by (simp add: shaped_def)
  then have "a ! y ! x \<in> set (a ! y)" using assms(3) by simp
  then show "length (a ! y ! x) = c" using r assms(1) by (simp add: shaped_def)
qed

lemma shaped_width:
  assumes "shaped h w c a" "0 < h"
  shows "width_of a = w"
proof -
  from assms obtain r rs where a: "a = r # rs"
    by (cases a) (auto simp: shaped_def)
  then show ?thesis using assms(1) by (simp add: shaped_def width_of_def)
qed

lemma shaped_chans:
  assumes "shaped h w c a" "0 < h" "0 < w"
  shows "concat a \<noteq> []" "chans_of a = c"
proof -
  from assms obtain r rs where a: "a = r # rs"
    by (cases a) (auto simp: shaped_def)
  then have "length r = w" "\<forall>p \<in> set r. length p = c" using assms(1) by (simp_all add: shaped_def)
  with assms(3) obtain p ps where r: "r = p # ps" "length p = c"
    by (cases r) auto
  show "concat a \<noteq> []" by (simp add: a r)
  show "chans_of a = c" by (simp add: chans_of_def a r)
qed

lemma shape_c_nonempty: "concat a \<noteq> [] \<Longrightarrow> shape_c a = chans_of a"
  unfolding shape_c_def by (rule if_not_P)

lemma shaped_map: "shaped h w c a \<Longrightarrow> shaped h w c (map (map (map f)) a)"
  by (auto simp: shaped_def)

lemma shaped_rect3:
  assumes "rect3 rows"
  shows "shaped (length rows) (width_of rows) (chans_of rows) rows"
  using assms by (auto simp: shaped_def rect3_def rect2_def list_all_iff)

lemma shaped_rect2:
  assumes "rect2 rows"
  shows "shaped (length rows) (width_of rows) 1 (map (map (\<lambda>p. [p])) rows)"
  using assms by (auto simp: shaped_def rect2_def list_all_iff)

lemma width_of_map_map: "width_of (map (map f) a) = width_of a"
  by (cases a) (simp_all add: width_of_def)

lemma raster_shaped:
  assumes "raster img"
  shows "shaped (height img) (width img) (channels img) (rows3 img)"
    and "length (rows3 img) = height img"
    and "width_of (rows3 img) = width img"
    and "shape_c (rows3 img) = channels img"
proof -
  have s: "shaped (height img) (width img) (channels img) (rows3 img)"
  proof (cases img)
    case (A2 rows)
    then show ?thesis
      using assms shaped_rect2 [of rows]
      by (simp add: raster_def height_def width_def channels_def rows3_def)
  next
    case (A3 rows)
    then have r: "rect3 rows" "0 < length rows" "0 < width_of rows"
      using assms by (simp_all add: raster_def height_def width_def)
    from shaped_chans [OF shaped_rect3 [OF r(1)] r(2,3)]
    have "shape_c rows = chans_of rows" by (intro shape_c_nonempty)
    then show ?thesis
      using A3 shaped_rect3 [OF r(1)]
      by (simp add: height_def width_def channels_def rows3_def)
  qed
  then show "shaped (height img) (width img) (channels img) (rows3 img)" .
  show l: "length (rows3 img) = height img"
    by (cases img) (simp_all add: rows3_def height_def)
  show "width_of (rows3 img) = width img"
    by (cases img) (simp_all add: rows3_def width_def width_of_map_map)
  have p: "0 < height img" "0 < width img" using assms by (simp_all add: raster_def)
  from shaped_chans [OF s p] show "shape_c (rows3 img) = channels img"
    using shape_c_nonempty [of "rows3 img"] by simp
qed

lemma concat_get_chan:
  assumes "concat a \<noteq> []"
  shows "concat (get_chan ch a) \<noteq> []"
proof -
  have "concat (get_chan ch a) = map (\<lambda>p. p ! ch) (concat a)"
    by (simp add: get_chan_def map_concat)
  with assms show ?thesis by simp
qed

lemma blur_finish_pixels:
  assumes "shaped h w c out" "0 < h" "0 < w" "0 < c"
  shows "height (blur_finish c out) = h"
    and "width (blur_finish c out) = w"
    and "channels (blur_finish c out) = c"
    and "\<forall>y < h. \<forall>x < w. \<forall>ch < c.
           pixel (blur_finish c out) y x ch = astype_u8 (np_clip (out ! y ! x ! ch) 0 255)"
proof -
  let ?f = "\<lambda>v. astype_u8 (np_clip v 0 255)"
  have l: "length out = h" using assms(1) by (simp add: shaped_def)
  have wd: "width_of out = w" using assms(1,2) by (rule shaped_width)
  show "height (blur_finish c out) = h"
    by (simp add: blur_finish_def height_def get_chan_def l)
  show "width (blur_finish c out) = w"
    by (simp add: blur_finish_def width_def get_chan_def width_of_map_map wd)
  show "channels (blur_finish c out) = c"
  proof (cases "c = 1")
    case True
    then show ?thesis by (simp add: blur_finish_def channels_def)
  next
    case False
    have "shaped h w c (map (map (map ?f)) out)" using assms(1) by (rule shaped_map)
    from shaped_chans [OF this assms(2,3)] False show ?thesis
      using shape_c_nonempty [of "map (map (map ?f)) out"]
      by (simp add: blur_finish_def channels_def del: concat_eq_Nil_conv)
  qed
  show "\<forall>y < h. \<forall>x < w. \<forall>ch < c.
           pixel (blur_finish c out) y x ch = astype_u8 (np_clip (out ! y ! x ! ch) 0 255)"
  proof (intro allI impI)
    fix y x ch assume b: "y < h" "x < w" "ch < c"
    note n = shaped_nth [OF assms(1) b(1,2)]
    show "pixel (blur_finish c out) y x ch = astype_u8 (np_clip (out ! y ! x ! ch) 0 255)"
      using b n l by (cases "c = 1") (simp_all add: blur_finish_def pixel_def get_chan_def)
  qed
qed

lemma BoxBlurStep_process_form:
  assumes "raster img" "odd ks" "0 < ks"
  shows "\<exists>out. BoxBlurStep_process img ks = Inr (blur_finish (channels img) out)
     \<and> shaped (height img) (width img) (channels img) out
     \<and> (\<forall>y < height img. \<forall>x < width img. \<forall>ch < channels img.
          out ! y ! x ! ch =
            blur_value (integral_table (height img) (width img) (nat (ks div 2))
                (padded_channel (rows3 img) (nat (ks div 2)) ch)) (nat ks) y x)"
proof -
  define i3 where "i3 = rows3 img"
  define h where "h = height img"
  define w where "w = width img"
  define c where "c = channels img"
  define V where "V ch = map (\<lambda>y. map (\<lambda>x.
        blur_value (integral_table h w (nat (ks div 2)) (padded_channel i3 (nat (ks div 2)) ch))
          (nat ks) y x) [0..<w]) [0..<h]" for ch
  have s: "shaped h w c i3" and l: "length i3 = h" and wd: "width_of i3 = w"
    and sc: "shape_c i3 = c"
    using raster_shaped [OF assms(1)] by (simp_all add: i3_def h_def w_def c_def)
  have p: "0 < h" "0 < w" "0 < c"
    using assms(1) by (simp_all add: raster_def h_def w_def c_def)
  have ne: "concat i3 \<noteq> []" using shaped_chans [OF s p(1,2)] by simp
  have pad: "0 \<le> ks div 2" using assms(3) by simp
  have ch: "\<forall>ch \<in> set [0..<c]. blur_channel i3 h w ks (ks div 2) ch = Inr (V ch)
          \<and> length (V ch) = h \<and> (\<forall>r \<in> set (V ch). length r = w)"
  proof
    fix ch assume "ch \<in> set [0..<c]"
    have "blur_channel i3 h w ks (ks div 2) ch = Inr (V ch)"
      unfolding V_def using pad concat_get_chan [OF ne] assms(3)
      by (intro blur_channel_value) simp_all
    moreover have "length (V ch) = h" "\<forall>r \<in> set (V ch). length r = w"
      by (auto simp: V_def)
    ultimately show "blur_channel i3 h w ks (ks div 2) ch = Inr (V ch)
          \<and> length (V ch) = h \<and> (\<forall>r \<in> set (V ch). length r = w)" by simp
  qed
  have z: "shaped h w c (map (map (map (\<lambda>_. 0 :: rat))) i3)"
    using s by (rule shaped_map)
  from blur_loop_value [OF z _ ch] obtain out where
    o: "blur_loop i3 h w ks (ks div 2) [0..<c] (map (map (map (\<lambda>_. 0))) i3) = Inr out"
      "shaped h w c out"
    and v: "\<forall>y < h. \<forall>x < w. \<forall>ch < c. out ! y ! x ! ch = V ch ! y ! x"
    by auto
  have i3: "(case img of A2 rows \<Rightarrow> map (map (\<lambda>p. [p])) rows | A3 rows \<Rightarrow> rows) = i3"
    by (simp add: rows3_def i3_def split: ndarray.splits)
  have odd: "ks mod 2 \<noteq> 0" using assms(2) by (simp add: odd_iff_mod_2_eq_one)
  have e: "BoxBlurStep_process img ks = Inr (blur_finish c out)"
    unfolding BoxBlurStep_process_def Let_def i3 using odd o(1) by (simp add: l wd sc)
  have "out ! y ! x ! ch =
            blur_value (integral_table h w (nat (ks div 2))
                (padded_channel i3 (nat (ks div 2)) ch)) (nat ks) y x"
    if "y < h" "x < w" "ch < c" for y x ch
    using v that by (simp add: V_def)
  with e o(2) show ?thesis
    unfolding h_def w_def c_def i3_def by blast
qed

lemma BoxBlurStep_process_pixels:
  assumes "raster img" "odd ks" "0 < ks"
  shows "\<exists>out. BoxBlurStep_process img ks = Inr out
     \<and> height out = height img \<and> width out = width img \<and> channels out = channels img
     \<and> (\<forall>y < height img. \<forall>x < width img. \<forall>ch < channels img.
          pixel out y x ch = astype_u8 (np_clip
            (blur_value (integral_table (height img) (width img) (nat (ks div 2))
                (padded_channel (rows3 img) (nat (ks div 2)) ch)) (nat ks) y x) 0 255))"
proof -
  from BoxBlurStep_process_form [OF assms] obtain out where
    e: "BoxBlurStep_process img ks = Inr (blur_finish (channels img) out)"
    and s: "shaped (height img) (width img) (channels img) out"
    and v: "\<forall>y < height img. \<forall>x < width img. \<forall>ch < channels img.
          out ! y ! x ! ch =
            blur_value (integral_table (height img) (width img) (nat (ks div 2))
                (padded_channel (rows3 img) (nat (ks div 2)) ch)) (nat ks) y x"
    by blast
  have p: "0 < height img" "0 < width img" "0 < channels img"
    using assms(1) by (simp_all add: raster_def)
  note f = blur_finish_pixels [OF s p]
  show ?thesis
    unfolding e using f v by simp
qed

section \<open>Even kernel sizes\<close>





section \<open>Evaluating float32 roundings\<close>

lemma ilog2_unique:
  assumes "0 < x" "pow2 e \<le> x" "x < pow2 (e + 1)"
  shows "ilog2 x = e"
proof (rule ccontr)
  assume n: "ilog2 x \<noteq> e"
  note b = ilog2_bounds [OF assms(1)]
  show False
  proof (cases "ilog2 x < e")
    case True
    then have "pow2 (ilog2 x + 1) \<le> pow2 e" by (intro pow2_le_mono) simp
    with b assms(2) show False by simp
  next
    case False
    with n have "pow2 (e + 1) \<le> pow2 (ilog2 x)" by (intro pow2_le_mono) simp
    with b assms(3) show False by simp
  qed
qed

lemma fl32_at:
  assumes "0 < x" "pow2 e \<le> x" "x < pow2 (e + 1)"
  shows "fl32 x = of_int (round_half_even (x / pow2 (e - 23))) * pow2 (e - 23)"
  using assms(1) ilog2_unique [OF assms] by (simp add: fl32_def Let_def)

lemma fl32_scale: "fl32 (2 * x) = 2 * fl32 x"
proof (cases "x = 0")
  case True
  then show ?thesis by (simp add: fl32_0)
next
  case False
  define a where "a = \<bar>x\<bar>"
  define e where "e = ilog2 a"
  define u where "u = pow2 (e - 23)"
  have a: "0 < a" using False by (simp add: a_def)
  note b = ilog2_bounds [OF a]
  have "ilog2 (2 * a) = e + 1"
  proof (rule ilog2_unique)
    show "0 < 2 * a" using a by simp
    show "pow2 (e + 1) \<le> 2 * a" using b by (simp add: pow2_Suc e_def)
    have "pow2 (e + 1 + 1) = 2 * (2 * pow2 e)" by (simp only: pow2_Suc)
    then show "2 * a < pow2 (e + 1 + 1)" using b by (simp add: pow2_Suc e_def)
  qed
  moreover have "\<bar>2 * x\<bar> = 2 * a" by (simp add: a_def abs_mult)
  ultimately have i: "ilog2 \<bar>2 * x\<bar> = e + 1" by simp
  have "e + 1 - 23 = e - 23 + 1" by simp
  then have "pow2 (e + 1 - 23) = 2 * u"
    unfolding u_def by (simp only: pow2_Suc)
  then have u2: "pow2 (ilog2 \<bar>2 * x\<bar> - 23) = 2 * u" unfolding i .
  have up: "0 < u" by (simp add: u_def pow2_pos)
  have r: "\<bar>2 * x\<bar> / (2 * u) = \<bar>x\<bar> / u"
    by (simp add: abs_mult)
  have "fl32 (2 * x) = sgn (2 * x) * of_int (round_half_even (\<bar>2 * x\<bar> / (2 * u))) * (2 * u)"
    using False unfolding fl32_def Let_def u2 by simp
  also have "\<dots> = 2 * (sgn x * of_int (round_half_even (\<bar>x\<bar> / u)) * u)"
    unfolding r by (simp add: sgn_mult)
  also have "sgn x * of_int (round_half_even (\<bar>x\<bar> / u)) * u = fl32 x"
    using False unfolding fl32_def Let_def u_def e_def a_def by simp
  finally show ?thesis .
qed

lemma fl32_scale_pow: "fl32 (2 ^ t * x) = 2 ^ t * fl32 x"
proof (induction t)
  case 0
  then show ?case by simp
next
  case (Suc t)
  have "fl32 (2 ^ Suc t * x) = fl32 (2 * (2 ^ t * x))" by (simp add: mult.assoc)
  also have "\<dots> = 2 * fl32 (2 ^ t * x)" by (rule fl32_scale)
  finally show ?case using Suc by simp
qed

lemma fl32_of_nat_scaled:
  assumes "n \<le> 2 ^ 24"
  shows "fl32 (of_nat (2 ^ t * n)) = of_nat (2 ^ t * n)"
proof -
  have "fl32 (of_nat (2 ^ t * n)) = fl32 (2 ^ t * of_nat n)" by simp
  also have "\<dots> = 2 ^ t * fl32 (of_nat n)" by (rule fl32_scale_pow)
  also have "\<dots> = 2 ^ t * of_nat n" using fl32_of_nat [OF assms] by simp
  finally show ?thesis by simp
qed

lemma round_half_even_div:
  assumes "0 < b"
  shows "round_half_even (of_int a / of_int b) =
     (if 2 * (a mod b) < b then a div b
      else if b < 2 * (a mod b) then a div b + 1
      else if even (a div b) then a div b else a div b + 1)"
proof -
  have f: "\<lfloor>(of_int a :: rat) / of_int b\<rfloor> = a div b"
    by (rule floor_divide_of_int_eq)
  have "(of_int a :: rat) = of_int (a div b * b + a mod b)" by simp
  also have "\<dots> = of_int (a div b) * of_int b + of_int (a mod b)" by (simp only: of_int_add of_int_mult)
  finally have "(of_int a :: rat) / of_int b = (of_int (a div b) * of_int b + of_int (a mod b)) / of_int b"
    by simp
  also have "\<dots> = of_int (a div b) + of_int (a mod b) / of_int b"
    using assms by (simp add: add_divide_distrib)
  finally have "(of_int a :: rat) / of_int b = of_int (a div b) + of_int (a mod b) / of_int b" .
  then have d: "(of_int a :: rat) / of_int b - of_int (a div b) = of_int (a mod b) / of_int b"
    by simp
  have lt: "(of_int (a mod b) / of_int b < (1 / 2 :: rat)) = (2 * (a mod b) < b)"
  proof -
    have "(of_int (a mod b) / of_int b < (1 / 2 :: rat)) = ((of_int (2 * (a mod b)) :: rat) < of_int b)"
      using assms by (simp add: field_simps)
    then show ?thesis by (simp only: of_int_less_iff)
  qed
  have gt: "((1 / 2 :: rat) < of_int (a mod b) / of_int b) = (b < 2 * (a mod b))"
  proof -
    have "((1 / 2 :: rat) < of_int (a mod b) / of_int b) = ((of_int b :: rat) < of_int (2 * (a mod b)))"
      using assms by (simp add: field_simps)
    then show ?thesis by (simp only: of_int_less_iff)
  qed
  show ?thesis
    unfolding round_half_even_def Let_def f d lt gt by simp
qed

lemma fl32_int_at:
  assumes "0 < n" "2 ^ (23 + t) \<le> n" "n < 2 ^ (24 + t)"
  shows "fl32 (of_int n) = of_int (round_half_even (of_int n / of_int (2 ^ t)) * 2 ^ t)"
proof -
  have p: "pow2 (int (23 + t)) = 2 ^ (23 + t)" "pow2 (int (23 + t) + 1) = 2 ^ (24 + t)"
    "pow2 (int (23 + t) - 23) = 2 ^ t"
    by (simp_all add: pow2_def nat_add_distrib)
  have "fl32 (of_int n) = of_int (round_half_even (of_int n / pow2 (int (23 + t) - 23)))
      * pow2 (int (23 + t) - 23)"
  proof (rule fl32_at)
    show "(0 :: rat) < of_int n" using assms(1) by simp
    have "(of_int (2 ^ (23 + t)) :: rat) \<le> of_int n" using assms(2) by (simp only: of_int_le_iff)
    then show "pow2 (int (23 + t)) \<le> of_int n" unfolding p by simp
    have "(of_int n :: rat) < of_int (2 ^ (24 + t))" using assms(3) by (simp only: of_int_less_iff)
    then show "of_int n < pow2 (int (23 + t) + 1)" unfolding p by simp
  qed
  then show ?thesis unfolding p by simp
qed

lemma clip_trunc_div:
  assumes "0 < K" "K \<le> 65536" "W \<le> 255 * K"
  shows "astype_u8 (np_clip (fl32 (of_nat W / of_nat K)) 0 255) = of_nat (W div K)"
proof -
  define n where "n = W div K"
  define r where "r = W mod K"
  define q :: rat where "q = of_nat W / of_nat K"
  have W: "W = n * K + r" by (simp add: n_def r_def)
  have "W div K \<le> (255 * K) div K" using assms(3) by (rule div_le_mono)
  then have n255: "n \<le> 255" using assms(1) by (simp add: n_def)
  have K: "(0 :: rat) < of_nat K" using assms(1) by simp
  have qn: "q = of_nat n + of_nat r / of_nat K"
    using K by (simp add: q_def W field_simps)
  show ?thesis
  proof (cases "r = 0")
    case True
    then have "q = of_nat n" by (simp add: qn)
    moreover have "fl32 (of_nat n) = of_nat n"
      using n255 by (intro fl32_of_nat) simp
    moreover have "np_clip (of_nat n) 0 255 = (of_nat n :: rat)"
      using n255 by (simp add: np_clip_def)
    moreover have "trunc (of_nat n) = int n"
      using trunc_of_int [of "int n"] by simp
    ultimately show ?thesis
      by (simp add: q_def [symmetric] astype_u8_def n_def)
  next
    case False
    have rK: "r < K" using assms(1) by (simp add: r_def)
    have lo: "of_nat n + 1 / of_nat K \<le> q"
    proof -
      have "(1 :: rat) \<le> of_nat r" using False by simp
      then have "1 / of_nat K \<le> (of_nat r :: rat) / of_nat K"
        using K by (simp add: divide_right_mono)
      then show ?thesis by (simp add: qn)
    qed
    have hi: "q \<le> of_nat n + 1 - 1 / of_nat K"
    proof -
      have "r + 1 \<le> K" using rK by simp
      then have "(of_nat (r + 1) :: rat) \<le> of_nat K" by (simp only: of_nat_le_iff)
      then have "(of_nat r :: rat) \<le> of_nat K - 1" by simp
      then have "(of_nat r :: rat) / of_nat K \<le> (of_nat K - 1) / of_nat K"
        using K by (simp add: divide_right_mono)
      also have "\<dots> = 1 - 1 / of_nat K" using K by (simp add: field_simps)
      finally show ?thesis by (simp add: qn)
    qed
    have n254: "n \<le> 254"
    proof (rule ccontr)
      assume "\<not> n \<le> 254"
      with n255 have "n = 255" by simp
      with W False assms(3) show False by simp
    qed
    have "(0 :: rat) < 1 / of_nat K" using K by simp
    moreover have "(0 :: rat) \<le> of_nat n" by simp
    ultimately have q0: "0 < q" using lo by linarith
    have q256: "q < 256"
    proof -
      have "(of_nat n :: rat) \<le> 254" using n254 by simp
      moreover have "(0 :: rat) < 1 / of_nat K" using K by simp
      ultimately show ?thesis using hi by linarith
    qed
    have "\<bar>fl32 q - q\<bar> \<le> \<bar>q\<bar> / 2 ^ 24" by (rule fl32_error)
    also have "\<dots> < 256 / 2 ^ 24" using q0 q256 by (simp add: divide_strict_right_mono)
    also have "\<dots> = 1 / 65536" by simp
    also have "\<dots> \<le> 1 / of_nat K"
    proof -
      have "(of_nat K :: rat) \<le> of_nat 65536" using assms(2) by (simp only: of_nat_le_iff)
      then show ?thesis using K by (simp add: field_simps)
    qed
    finally have e: "\<bar>fl32 q - q\<bar> < 1 / of_nat K" .
    have e1: "fl32 q - q < 1 / of_nat K" "q - fl32 q < 1 / of_nat K"
      using e by (simp_all add: abs_less_iff)
    have b: "of_nat n < fl32 q" "fl32 q < of_nat n + 1"
      using e1 lo hi by linarith+
    have "(of_nat n :: rat) \<le> 254" using n254 by simp
    moreover have "(0 :: rat) \<le> of_nat n" by simp
    ultimately have c: "0 \<le> fl32 q" "fl32 q \<le> 255" using b by linarith+
    then have "np_clip (fl32 q) 0 255 = fl32 q" by (simp add: np_clip_def)
    moreover have "\<lfloor>fl32 q\<rfloor> = int n"
      using b by (intro floor_unique) simp_all
    ultimately show ?thesis
      using c(1) by (simp add: astype_u8_def trunc_def q_def [symmetric] n_def)
  qed
qed

section \<open>The blur on images of moderate size\<close>

subsection \<open>The padded channel\<close>

lemma length_edge1: "xs \<noteq> [] \<Longrightarrow> length (edge1 p xs) = length xs + 2 * p"
  by (cases xs) (simp_all add: edge1_def)

lemma edge1_nth:
  assumes "xs \<noteq> []" "i < length xs + 2 * p"
  shows "edge1 p xs ! i = xs ! clamp_index (int i - int p) (length xs)"
proof -
  define n where "n = length xs"
  have n: "0 < n" using assms(1) by (simp add: n_def)
  from assms(1) obtain x r where c: "xs = x # r" by (cases xs) auto
  have e: "edge1 p xs = replicate p (xs ! 0) @ xs @ replicate p (xs ! (n - 1))"
    using assms(1) by (simp add: edge1_def c n_def last_conv_nth [of "x # r", simplified])
  consider "i < p" | "p \<le> i" "i < p + n" | "p + n \<le> i" by linarith
  then show ?thesis
  proof cases
    case 1
    then have "clamp_index (int i - int p) n = 0"
      by (simp add: clamp_index_def clamp_def)
    with 1 show ?thesis unfolding e n_def [symmetric] by (simp add: nth_append)
  next
    case 2
    then have "clamp_index (int i - int p) n = i - p"
      by (simp add: clamp_index_def clamp_def)
    with 2 show ?thesis unfolding e n_def [symmetric] by (simp add: nth_append n_def)
  next
    case 3
    then have "clamp_index (int i - int p) n = n - 1"
      using n by (simp add: clamp_index_def clamp_def)
    moreover have "i - p - n < p" using 3 assms(2) by (simp add: n_def)
    ultimately show ?thesis
      using 3 unfolding e n_def [symmetric] by (simp add: nth_append n_def)
  qed
qed

lemma clamp_index_less: "0 < n \<Longrightarrow> clamp_index i n < n"
  by (simp add: clamp_index_def clamp_def)

lemma of_u8_unat: "of_u8 v = of_nat (unat v)"
  by (simp add: of_u8_def)

lemma unat_u8_le: "unat (v :: u8) \<le> 255"
proof -
  have "unat v < 2 ^ LENGTH(8)" by (rule unsigned_less)
  then show ?thesis by simp
qed

lemma padded_channel_nth:
  assumes s: "shaped h w c i3" and p: "0 < h" "0 < w"
    and i: "i < h + 2 * pad" and j: "j < w + 2 * pad"
  shows "padded_channel i3 pad ch ! i ! j
       = of_nat (unat (i3 ! clamp_index (int i - int pad) h ! clamp_index (int j - int pad) w ! ch))"
    and "length (padded_channel i3 pad ch) = h + 2 * pad"
    and "length (padded_channel i3 pad ch ! i) = w + 2 * pad"
proof -
  define G where "G = map (map of_u8) (get_chan ch i3)"
  define R where "R = map (edge1 pad) G"
  have l: "length i3 = h" using s by (simp add: shaped_def)
  have lG: "length G = h" by (simp add: G_def get_chan_def l)
  have lR: "length R = h" by (simp add: R_def lG)
  have ne: "R \<noteq> []" using lR p(1) by auto
  have P: "padded_channel i3 pad ch = edge1 pad R"
    by (simp add: padded_channel_def R_def G_def)
  define a where "a = clamp_index (int i - int pad) h"
  define b where "b = clamp_index (int j - int pad) w"
  have a: "a < h" unfolding a_def using p(1) by (rule clamp_index_less)
  have b: "b < w" unfolding b_def using p(2) by (rule clamp_index_less)
  have row: "edge1 pad R ! i = R ! a"
    using edge1_nth [OF ne, of i pad] i by (simp add: lR a_def)
  have lw: "length (i3 ! a) = w" using shaped_nth(1) [OF s a p(2)] .
  have Ga: "G ! a = map (\<lambda>q. of_u8 (q ! ch)) (i3 ! a)"
    using a by (simp add: G_def get_chan_def l)
  then have lGa: "length (G ! a) = w" "G ! a \<noteq> []"
    using lw p(2) by auto
  have Ra: "R ! a = edge1 pad (G ! a)"
    using a by (simp add: R_def lG)
  have "R ! a ! j = G ! a ! b"
    unfolding Ra using edge1_nth [OF lGa(2), of j pad] j by (simp add: lGa(1) b_def)
  also have "\<dots> = of_u8 (i3 ! a ! b ! ch)"
    unfolding Ga using b lw by simp
  finally show "padded_channel i3 pad ch ! i ! j
       = of_nat (unat (i3 ! clamp_index (int i - int pad) h ! clamp_index (int j - int pad) w ! ch))"
    unfolding P row by (simp add: of_u8_unat a_def b_def)
  show "length (padded_channel i3 pad ch) = h + 2 * pad"
    unfolding P using length_edge1 [OF ne] by (simp add: lR)
  show "length (padded_channel i3 pad ch ! i) = w + 2 * pad"
    unfolding P row Ra using length_edge1 [OF lGa(2)] by (simp add: lGa(1))
qed

subsection \<open>Cumulative sums of small integers are exact\<close>

lemma length_accumulate [simp]: "length (accumulate a f xs) = length xs"
  by (induction xs arbitrary: a) simp_all

lemma accumulate_0: "xs \<noteq> [] \<Longrightarrow> accumulate a f xs ! 0 = f a (xs ! 0)"
  by (cases xs) simp_all

lemma accumulate_Suc:
  "Suc j < length xs \<Longrightarrow> accumulate a f xs ! Suc j = f (accumulate a f xs ! j) (xs ! Suc j)"
proof (induction xs arbitrary: a j)
  case Nil
  then show ?case by simp
next
  case (Cons x xs)
  show ?case
  proof (cases j)
    case 0
    with Cons.prems have "xs \<noteq> []" by auto
    with 0 show ?thesis by (simp add: accumulate_0)
  next
    case (Suc i)
    with Cons.prems have "Suc i < length xs" by simp
    from Cons.IH [OF this, of "f a x"] Suc show ?thesis by simp
  qed
qed

lemma length_cumsum_list [simp]: "length (cumsum_list xs) = length xs"
  by (cases xs) (simp_all add: cumsum_list_def)

lemma cumsum_list_0: "xs \<noteq> [] \<Longrightarrow> cumsum_list xs ! 0 = xs ! 0"
  by (cases xs) (simp_all add: cumsum_list_def)

lemma cumsum_list_Suc:
  assumes "Suc j < length xs"
  shows "cumsum_list xs ! Suc j = fl32 (cumsum_list xs ! j + xs ! Suc j)"
proof -
  from assms obtain x r where c: "xs = x # r" by (cases xs) auto
  show ?thesis
  proof (cases j)
    case 0
    with assms c have "r \<noteq> []" by auto
    with 0 show ?thesis by (simp add: c cumsum_list_def accumulate_0)
  next
    case (Suc i)
    with assms c have "Suc i < length r" by simp
    from accumulate_Suc [OF this, of x "\<lambda>a y. fl32 (a + y)"] Suc show ?thesis
      by (simp add: c cumsum_list_def)
  qed
qed

lemma length_cumsum_axis0 [simp]: "length (cumsum_axis0 a) = length a"
  by (cases a) (simp_all add: cumsum_axis0_def)

lemma cumsum_axis0_0: "a \<noteq> [] \<Longrightarrow> cumsum_axis0 a ! 0 = a ! 0"
  by (cases a) (simp_all add: cumsum_axis0_def)

lemma cumsum_axis0_Suc:
  assumes "Suc i < length a"
  shows "cumsum_axis0 a ! Suc i = map2 (\<lambda>s y. fl32 (s + y)) (cumsum_axis0 a ! i) (a ! Suc i)"
proof -
  from assms obtain x r where c: "a = x # r" by (cases a) auto
  show ?thesis
  proof (cases i)
    case 0
    with assms c have "r \<noteq> []" by auto
    with 0 show ?thesis by (simp add: c cumsum_axis0_def accumulate_0)
  next
    case (Suc k)
    with assms c have "Suc k < length r" by simp
    from accumulate_Suc [OF this, of x "\<lambda>acc row. map2 (\<lambda>s y. fl32 (s + y)) acc row"] Suc
    show ?thesis by (simp add: c cumsum_axis0_def)
  qed
qed

lemma sum_lessThan_bound:
  fixes g :: "nat \<Rightarrow> nat"
  assumes "\<forall>b. g b \<le> M"
  shows "(\<Sum>b<n. g b) \<le> M * n"
proof -
  have "(\<Sum>b<n. g b) \<le> (\<Sum>b<n. M)"
    using assms by (intro sum_mono) simp
  then show ?thesis by (simp add: mult.commute)
qed

lemma cumsum_list_nat:
  assumes l: "length xs = n" and v: "\<forall>b<n. xs ! b = of_nat (g b)"
    and m: "\<forall>j<n. (\<Sum>b<Suc j. g b) \<le> 2 ^ 24" and j: "j < n"
  shows "cumsum_list xs ! j = of_nat (\<Sum>b<Suc j. g b)"
  using j
proof (induction j)
  case 0
  then have "xs \<noteq> []" using l by auto
  then show ?case using v 0 by (simp add: cumsum_list_0)
next
  case (Suc j)
  then have i: "cumsum_list xs ! j = of_nat (\<Sum>b<Suc j. g b)" by simp
  have "cumsum_list xs ! Suc j = fl32 (of_nat (\<Sum>b<Suc j. g b) + of_nat (g (Suc j)))"
    using cumsum_list_Suc [of j xs] Suc.prems l v i by simp
  also have "of_nat (\<Sum>b<Suc j. g b) + of_nat (g (Suc j)) = (of_nat (\<Sum>b<Suc (Suc j). g b) :: rat)"
    by simp
  also have "fl32 (of_nat (\<Sum>b<Suc (Suc j). g b)) = of_nat (\<Sum>b<Suc (Suc j). g b)"
    using m [rule_format, OF Suc.prems] by (rule fl32_of_nat)
  finally show ?case .
qed

lemma cumsum_axis0_nat:
  assumes l: "length a = H" and r: "\<forall>i<H. length (a ! i) = W"
    and v: "\<forall>i<H. \<forall>j<W. a ! i ! j = of_nat (P i j)"
    and m: "\<forall>i<H. \<forall>j<W. (\<Sum>c<Suc i. P c j) \<le> 2 ^ 24" and i: "i < H"
  shows "length (cumsum_axis0 a ! i) = W
     \<and> (\<forall>j<W. cumsum_axis0 a ! i ! j = of_nat (\<Sum>c<Suc i. P c j))"
  using i
proof (induction i)
  case 0
  then have "a \<noteq> []" using l by auto
  then show ?case using r v 0 by (simp add: cumsum_axis0_0)
next
  case (Suc i)
  then have h: "length (cumsum_axis0 a ! i) = W"
    "\<forall>j<W. cumsum_axis0 a ! i ! j = of_nat (\<Sum>c<Suc i. P c j)"
    by simp_all
  have e: "cumsum_axis0 a ! Suc i = map2 (\<lambda>s y. fl32 (s + y)) (cumsum_axis0 a ! i) (a ! Suc i)"
    using Suc.prems l by (intro cumsum_axis0_Suc) simp
  have la: "length (a ! Suc i) = W" using r Suc.prems by simp
  have "cumsum_axis0 a ! Suc i ! j = of_nat (\<Sum>c<Suc (Suc i). P c j)" if "j < W" for j
  proof -
    have "cumsum_axis0 a ! Suc i ! j = fl32 (of_nat (\<Sum>c<Suc i. P c j) + of_nat (P (Suc i) j))"
      unfolding e using that h la v Suc.prems by simp
    also have "of_nat (\<Sum>c<Suc i. P c j) + of_nat (P (Suc i) j)
        = (of_nat (\<Sum>c<Suc (Suc i). P c j) :: rat)"
      by simp
    also have "fl32 (of_nat (\<Sum>c<Suc (Suc i). P c j)) = of_nat (\<Sum>c<Suc (Suc i). P c j)"
      using m [rule_format, OF Suc.prems that] by (rule fl32_of_nat)
    finally show ?thesis .
  qed
  then show ?case unfolding e using h(1) la by simp
qed

subsection \<open>The table and the four-corner sum\<close>

lemma double_sum_bound:
  fixes P :: "nat \<Rightarrow> nat \<Rightarrow> nat"
  assumes "\<forall>i j. P i j \<le> M" "i \<le> H" "j \<le> W"
  shows "(\<Sum>c<i. \<Sum>d<j. P c d) \<le> M * H * W"
proof -
  have "(\<Sum>d<j. P c d) \<le> M * j" for c
    using assms(1) by (intro sum_lessThan_bound) simp
  then have "(\<Sum>c<i. \<Sum>d<j. P c d) \<le> M * j * i"
    by (intro sum_lessThan_bound) simp
  also have "M * j * i \<le> M * W * H"
    using assms(2,3) by (intro mult_le_mono) simp_all
  finally show ?thesis by (simp add: mult.assoc mult.commute [of W H])
qed

lemma integral_table_nat:
  assumes l: "length a = H" and r: "\<forall>i<H. length (a ! i) = W"
    and v: "\<forall>i<H. \<forall>j<W. a ! i ! j = of_nat (P i j)"
    and b: "\<forall>i j. P i j \<le> M" and m: "M * H * W \<le> 2 ^ 24"
    and H: "H = h + 2 * pad" and W: "W = w + 2 * pad"
    and i: "i \<le> H" and j: "j \<le> W"
  shows "integral_table h w pad a ! i ! j = of_nat (\<Sum>c<i. \<Sum>d<j. P c d)"
proof (cases i)
  case 0
  then show ?thesis using j by (cases j) (simp_all add: integral_table_def W)
next
  case (Suc i')
  then have i': "i' < H" using i by simp
  show ?thesis
  proof (cases j)
    case 0
    then show ?thesis using Suc i' l by (simp add: integral_table_def cumsum_axis1_def)
  next
    case (Suc j')
    then have j': "j' < W" using j by simp
    have col: "\<forall>i<H. \<forall>j<W. (\<Sum>c<Suc i. P c j) \<le> 2 ^ 24"
    proof (intro allI impI)
      fix i j assume "i < H" "j < W"
      have "(\<Sum>c<Suc i. P c j) \<le> M * Suc i"
        using b by (intro sum_lessThan_bound) simp
      also have "M * Suc i \<le> M * H"
        using \<open>i < H\<close> by (intro mult_le_mono2) simp
      also have "M * H \<le> M * H * W"
        using \<open>j < W\<close> by (cases W) simp_all
      finally show "(\<Sum>c<Suc i. P c j) \<le> 2 ^ 24" using m by simp
    qed
    from cumsum_axis0_nat [OF l r v col i'] have
      c: "length (cumsum_axis0 a ! i') = W"
        "\<forall>j<W. cumsum_axis0 a ! i' ! j = of_nat (\<Sum>c<Suc i'. P c j)"
      by simp_all
    have row: "\<forall>j<W. (\<Sum>d<Suc j. \<Sum>c<Suc i'. P c d) \<le> 2 ^ 24"
    proof (intro allI impI)
      fix j assume "j < W"
      have "(\<Sum>d<Suc j. \<Sum>c<Suc i'. P c d) = (\<Sum>c<Suc i'. \<Sum>d<Suc j. P c d)"
        by (rule sum.swap)
      also have "\<dots> \<le> M * H * W"
        using b i' \<open>j < W\<close> by (intro double_sum_bound) simp_all
      finally show "(\<Sum>d<Suc j. \<Sum>c<Suc i'. P c d) \<le> 2 ^ 24" using m by simp
    qed
    have "integral_table h w pad a ! i ! j = cumsum_list (cumsum_axis0 a ! i') ! j'"
      using i' l by (simp add: integral_table_def cumsum_axis1_def Suc \<open>i = Suc i'\<close>)
    also have "\<dots> = of_nat (\<Sum>d<Suc j'. \<Sum>c<Suc i'. P c d)"
      using c(1) c(2) row j' by (rule cumsum_list_nat)
    also have "(\<Sum>d<Suc j'. \<Sum>c<Suc i'. P c d) = (\<Sum>c<Suc i'. \<Sum>d<Suc j'. P c d)"
      by (rule sum.swap)
    finally show ?thesis by (simp add: Suc \<open>i = Suc i'\<close>)
  qed
qed

lemma sum_split_lessThan:
  fixes f :: "nat \<Rightarrow> nat"
  shows "(\<Sum>c<y + k. f c) = (\<Sum>c<y. f c) + (\<Sum>c=y..<y + k. f c)"
  by (simp add: lessThan_atLeast0 sum.atLeastLessThan_concat)

lemma four_corners:
  fixes P :: "nat \<Rightarrow> nat \<Rightarrow> nat"
  defines "S \<equiv> \<lambda>i j. \<Sum>c<i. \<Sum>d<j. P c d"
  assumes m: "S (y + k) (x + k) \<le> 2 ^ 24"
  shows "fl32 (fl32 (fl32 (of_nat (S (y + k) (x + k)) - of_nat (S y (x + k)))
                     - of_nat (S (y + k) x)) + of_nat (S y x))
         = of_nat (\<Sum>c=y..<y + k. \<Sum>d=x..<x + k. P c d)"
proof -
  define Q where "Q j = (\<Sum>c=y..<y + k. \<Sum>d<j. P c d)" for j
  define B where "B = (\<Sum>c=y..<y + k. \<Sum>d=x..<x + k. P c d)"
  have s: "S (y + k) j = S y j + Q j" for j
    unfolding S_def Q_def by (rule sum_split_lessThan)
  have q: "Q (x + k) = Q x + B"
    unfolding Q_def B_def by (simp add: sum_split_lessThan sum.distrib)
  have t: "S y (x + k) = S y x + (\<Sum>c<y. \<Sum>d=x..<x + k. P c d)"
    unfolding S_def by (simp add: sum_split_lessThan sum.distrib)
  have a: "S (y + k) (x + k) = S y (x + k) + Q x + B"
    by (simp add: s q)
  have c: "S (y + k) x = S y x + Q x"
    by (rule s)
  have bnd: "Q x + B \<le> 2 ^ 24" "B \<le> 2 ^ 24" "S y x \<le> 2 ^ 24"
    using m unfolding a t by simp_all
  have "fl32 (of_nat (S (y + k) (x + k)) - of_nat (S y (x + k))) = fl32 (of_nat (Q x + B))"
    unfolding a by simp
  also have "\<dots> = of_nat (Q x + B)"
    using bnd(1) by (rule fl32_of_nat)
  finally have 1: "fl32 (of_nat (S (y + k) (x + k)) - of_nat (S y (x + k))) = of_nat (Q x + B)" .
  have "\<bar>int B - int (S y x)\<bar> \<le> 2 ^ 24"
    using bnd(2,3) by simp
  then have f: "fl32 (of_int (int B - int (S y x))) = of_int (int B - int (S y x))"
    by (rule fl32_of_int)
  have e: "(of_nat (Q x + B) :: rat) - of_nat (S (y + k) x) = of_int (int B - int (S y x))"
    unfolding c by simp
  have 2: "fl32 (of_nat (Q x + B) - of_nat (S (y + k) x)) = of_int (int B - int (S y x))"
    unfolding e by (rule f)
  have g: "(of_int (int B - int (S y x)) :: rat) + of_nat (S y x) = of_nat B"
    by simp
  have 3: "fl32 (of_int (int B - int (S y x)) + of_nat (S y x)) = of_nat B"
    unfolding g using bnd(2) by (rule fl32_of_nat)
  have "fl32 (fl32 (fl32 (of_nat (S (y + k) (x + k)) - of_nat (S y (x + k)))
                     - of_nat (S (y + k) x)) + of_nat (S y x)) = of_nat B"
    unfolding 1 2 3 ..
  then show ?thesis unfolding B_def .
qed

subsection \<open>The blur is the truncated mean\<close>

lemma pixel_rows3:
  assumes "raster img" "y < height img" "x < width img" "ch < channels img"
  shows "rows3 img ! y ! x ! ch = pixel img y x ch"
proof (cases img)
  case (A2 rows)
  have "rect2 rows" using assms(1) A2 by (simp add: raster_def)
  moreover have y: "y < length rows" using assms(2) A2 by (simp add: height_def)
  ultimately have "length (rows ! y) = width_of rows" by (rule rect2_nth)
  then have "x < length (rows ! y)" using assms(3) A2 by (simp add: width_def)
  moreover have "ch = 0" using assms(4) A2 by (simp add: channels_def)
  ultimately show ?thesis using y by (simp add: A2 rows3_def pixel_def)
next
  case (A3 rows)
  then show ?thesis by (simp add: rows3_def pixel_def)
qed

lemma window_sum_alt:
  "window_sum img k y x ch =
     (\<Sum>c=y..<y + k. \<Sum>d=x..<x + k.
        unat (pixel img (clamp_index (int c - int (k div 2)) (height img))
                        (clamp_index (int d - int (k div 2)) (width img)) ch))"
proof -
  define F where "F c d = unat (pixel img (clamp_index (int c - int (k div 2)) (height img))
                        (clamp_index (int d - int (k div 2)) (width img)) ch)" for c d
  have i: "(\<Sum>d=x..<x + k. F c d) = (\<Sum>dx=0..<k. F c (dx + x))" for c
    using sum.shift_bounds_nat_ivl [of "F c" 0 x k] by (simp add: add.commute)
  have o: "(\<Sum>c=y..<y + k. G c) = (\<Sum>dy=0..<k. G (dy + y))" for G :: "nat \<Rightarrow> nat"
    using sum.shift_bounds_nat_ivl [of G 0 y k] by (simp add: add.commute)
  have "window_sum img k y x ch = (\<Sum>dy=0..<k. \<Sum>dx=0..<k. F (dy + y) (dx + x))"
    unfolding window_sum_def F_def
    by (simp add: interv_sum_list_conv_sum_set_nat add.commute)
  also have "\<dots> = (\<Sum>c=y..<y + k. \<Sum>d=x..<x + k. F c d)"
    unfolding i o ..
  finally show ?thesis unfolding F_def .
qed

lemma box_bound:
  fixes P :: "nat \<Rightarrow> nat \<Rightarrow> nat"
  assumes "\<forall>i j. P i j \<le> M"
  shows "(\<Sum>c=y..<y + k. \<Sum>d=x..<x + k. P c d) \<le> M * (k * k)"
proof -
  have "(\<Sum>d=x..<x + k. P c d) \<le> (\<Sum>d=x..<x + k. M)" for c
    using assms by (intro sum_mono) simp
  then have "(\<Sum>c=y..<y + k. \<Sum>d=x..<x + k. P c d) \<le> (\<Sum>c=y..<y + k. \<Sum>d=x..<x + k. M)"
    by (rule sum_mono)
  then show ?thesis by (simp add: mult_ac)
qed

lemma kernel_square_bound:
  assumes "255 * (k * k) \<le> (2 :: nat) ^ 24"
  shows "k * k \<le> 65536"
proof -
  have "k \<le> 256"
  proof (rule ccontr)
    assume "\<not> k \<le> 256"
    then have "257 \<le> k" by simp
    then have "257 * 257 \<le> k * k" by (intro mult_le_mono)
    with assms show False by simp
  qed
  then have "k * k \<le> 256 * 256" by (intro mult_le_mono)
  then show ?thesis by simp
qed

lemma BoxBlurStep_moderate:
  assumes r: "raster img" and o: "odd ks" and p: "0 < ks"
    and m: "255 * (height img + nat ks - 1) * (width img + nat ks - 1) \<le> 2 ^ 24"
  shows "\<exists>out. BoxBlurStep_process img ks = Inr out
     \<and> height out = height img \<and> width out = width img \<and> channels out = channels img
     \<and> (\<forall>y < height img. \<forall>x < width img. \<forall>ch < channels img.
          pixel out y x ch = of_nat (window_sum img (nat ks) y x ch div (nat ks * nat ks)))"
proof -
  define k where "k = nat ks"
  define pad where "pad = nat (ks div 2)"
  define h where "h = height img"
  define w where "w = width img"
  define c where "c = channels img"
  define i3 where "i3 = rows3 img"
  define H where "H = h + 2 * pad"
  define W where "W = w + 2 * pad"
  from o obtain q where q: "ks = 2 * q + 1" by (rule oddE)
  with p have q0: "0 \<le> q" by simp
  have kp: "k = 2 * pad + 1"
    unfolding k_def pad_def q using q0 by (simp add: nat_add_distrib nat_mult_distrib)
  have pk: "pad = k div 2" unfolding kp by simp
  have s: "shaped h w c i3"
    using raster_shaped(1) [OF r] by (simp add: h_def w_def c_def i3_def)
  have ph: "0 < h" "0 < w"
    using r by (simp_all add: raster_def h_def w_def)
  have HW: "H = h + k - 1" "W = w + k - 1"
    by (simp_all add: H_def W_def kp)
  have m': "255 * H * W \<le> 2 ^ 24"
    using m unfolding HW h_def w_def k_def .
  have "k \<le> H" "k \<le> W" using ph by (simp_all add: HW)
  then have "k * k \<le> H * W" by (intro mult_le_mono)
  then have "255 * (k * k) \<le> 255 * H * W" by simp
  with m' have "255 * (k * k) \<le> 2 ^ 24" by linarith
  then have kk: "k * k \<le> 65536" by (rule kernel_square_bound)
  have k0: "0 < k * k" by (simp add: kp)
  have fk: "fl32 (of_nat (k * k)) = of_nat (k * k)"
    using kk by (intro fl32_of_nat) simp
  from BoxBlurStep_process_pixels [OF r o p] obtain out where
    e: "BoxBlurStep_process img ks = Inr out"
    and d: "height out = height img" "width out = width img" "channels out = channels img"
    and v: "\<forall>y < h. \<forall>x < w. \<forall>ch < c.
          pixel out y x ch = astype_u8 (np_clip
            (blur_value (integral_table h w pad (padded_channel i3 pad ch)) k y x) 0 255)"
    unfolding k_def pad_def h_def w_def c_def i3_def by blast
  have "pixel out y x ch = of_nat (window_sum img k y x ch div (k * k))"
    if y: "y < h" and x: "x < w" and ch: "ch < c" for y x ch
  proof -
    define P where "P a b = unat (i3 ! clamp_index (int a - int pad) h
                                    ! clamp_index (int b - int pad) w ! ch)" for a b
    define S where "S i j = (\<Sum>c<i. \<Sum>d<j. P c d)" for i j
    define B where "B = (\<Sum>c=y..<y + k. \<Sum>d=x..<x + k. P c d)"
    let ?a = "padded_channel i3 pad ch"
    let ?T = "integral_table h w pad ?a"
    have l: "length ?a = H"
      using padded_channel_nth(2) [OF s ph, of 0 pad 0 ch] ph by (simp add: H_def)
    have rw: "\<forall>i<H. length (?a ! i) = W"
      using padded_channel_nth(3) [OF s ph, of _ pad 0 ch] ph by (simp add: H_def W_def)
    have va: "\<forall>i<H. \<forall>j<W. ?a ! i ! j = of_nat (P i j)"
      using padded_channel_nth(1) [OF s ph, of _ pad _ ch] by (simp add: H_def W_def P_def)
    have b: "\<forall>i j. P i j \<le> 255"
      by (simp add: P_def unat_u8_le)
    have T: "?T ! i ! j = of_nat (S i j)" if "i \<le> H" "j \<le> W" for i j
      unfolding S_def using l rw va b m' H_def W_def that by (rule integral_table_nat)
    have yk: "y + k \<le> H" "y \<le> H" using y by (simp_all add: H_def kp)
    have xk: "x + k \<le> W" "x \<le> W" using x by (simp_all add: W_def kp)
    have "S (y + k) (x + k) \<le> 255 * H * W"
      unfolding S_def using b yk(1) xk(1) by (rule double_sum_bound)
    with m' have sm: "(\<Sum>c<y + k. \<Sum>d<x + k. P c d) \<le> 2 ^ 24"
      unfolding S_def by simp
    have "blur_value ?T k y x
        = fl32 (fl32 (fl32 (fl32 (of_nat (S (y + k) (x + k)) - of_nat (S y (x + k)))
                     - of_nat (S (y + k) x)) + of_nat (S y x)) / fl32 (of_nat (k * k)))"
      unfolding blur_value_def T [OF yk(1) xk(1)] T [OF yk(2) xk(1)] T [OF yk(1) xk(2)]
        T [OF yk(2) xk(2)] ..
    also have "\<dots> = fl32 (of_nat B / of_nat (k * k))"
      unfolding S_def four_corners [OF sm] fk B_def ..
    finally have bv: "blur_value ?T k y x = fl32 (of_nat B / of_nat (k * k))" .
    have "B \<le> 255 * (k * k)"
      unfolding B_def using b by (rule box_bound)
    with k0 kk have "astype_u8 (np_clip (fl32 (of_nat B / of_nat (k * k))) 0 255)
        = of_nat (B div (k * k))"
      by (rule clip_trunc_div)
    with v y x ch bv have px: "pixel out y x ch = of_nat (B div (k * k))" by simp
    have "P a b = unat (pixel img (clamp_index (int a - int (k div 2)) (height img))
                        (clamp_index (int b - int (k div 2)) (width img)) ch)" for a b
    proof -
      have "clamp_index (int a - int pad) h < height img"
        "clamp_index (int b - int pad) w < width img"
        using ph by (simp_all add: clamp_index_less h_def w_def)
      from pixel_rows3 [OF r this] ch show ?thesis
        by (simp add: P_def i3_def c_def pk h_def w_def)
    qed
    then have "B = window_sum img k y x ch"
      unfolding B_def window_sum_alt by simp
    with px show ?thesis by simp
  qed
  with e d show ?thesis
    unfolding k_def h_def w_def c_def by blast
qed

subsection \<open>Within one level of the mean, and exact on a uniform image\<close>

lemma window_sum_bound: "window_sum img k y x ch \<le> 255 * (k * k)"
  unfolding window_sum_alt by (rule box_bound) (simp add: unat_u8_le)

lemma trunc_mean_near:
  assumes "0 < K" "B \<le> 255 * K"
  shows "unat (of_nat (B div K) :: u8) = B div K"
    and "\<bar>of_nat (B div K) - (of_nat B / of_nat K :: rat)\<bar> < 1"
proof -
  have "B div K \<le> (255 * K) div K"
    using assms(2) by (rule div_le_mono)
  then have "B div K \<le> 255"
    using assms(1) by simp
  then show "unat (of_nat (B div K) :: u8) = B div K"
    by (simp add: unat_of_nat)
  have K: "(0 :: rat) < of_nat K" using assms(1) by simp
  have "(of_nat B :: rat) = of_nat (K * (B div K) + B mod K)" by simp
  also have "\<dots> = of_nat K * of_nat (B div K) + of_nat (B mod K)" by (simp only: of_nat_add of_nat_mult)
  finally have "of_nat B / (of_nat K :: rat) = of_nat (B div K) + of_nat (B mod K) / of_nat K"
    using K by (simp add: field_simps)
  moreover have "(of_nat (B mod K) :: rat) / of_nat K < 1" "0 \<le> (of_nat (B mod K) :: rat) / of_nat K"
    using K assms(1) by simp_all
  ultimately show "\<bar>of_nat (B div K) - (of_nat B / of_nat K :: rat)\<bar> < 1"
    by simp
qed

lemma BoxBlurStep_moderate_within_one:
  assumes "raster img" "odd ks" "0 < ks"
    and "255 * (height img + nat ks - 1) * (width img + nat ks - 1) \<le> 2 ^ 24"
  shows "\<exists>out. BoxBlurStep_process img ks = Inr out
     \<and> height out = height img \<and> width out = width img \<and> channels out = channels img
     \<and> (\<forall>y < height img. \<forall>x < width img. \<forall>ch < channels img.
          \<bar>of_nat (unat (pixel out y x ch)) - brute_force_mean img (nat ks) y x ch\<bar> < 1)"
proof -
  from BoxBlurStep_moderate [OF assms] obtain out where
    e: "BoxBlurStep_process img ks = Inr out"
    and d: "height out = height img" "width out = width img" "channels out = channels img"
    and v: "\<forall>y < height img. \<forall>x < width img. \<forall>ch < channels img.
          pixel out y x ch = of_nat (window_sum img (nat ks) y x ch div (nat ks * nat ks))"
    by blast
  have k: "0 < nat ks * nat ks" using assms(3) by simp
  have "\<bar>of_nat (unat (pixel out y x ch)) - brute_force_mean img (nat ks) y x ch\<bar> < 1"
    if "y < height img" "x < width img" "ch < channels img" for y x ch
  proof -
    note t = trunc_mean_near [OF k window_sum_bound [of img "nat ks" y x ch]]
    have "pixel out y x ch = of_nat (window_sum img (nat ks) y x ch div (nat ks * nat ks))"
      using v that by simp
    then show ?thesis
      unfolding brute_force_mean_def using t by simp
  qed
  with e d show ?thesis by blast
qed

lemma window_sum_uniform:
  assumes r: "raster img" and u: "\<forall>y < height img. \<forall>x < width img. pixel img y x ch = v"
  shows "window_sum img k y x ch = k * k * unat v"
proof -
  have p: "0 < height img" "0 < width img" using r by (simp_all add: raster_def)
  have "pixel img (clamp_index a (height img)) (clamp_index b (width img)) ch = v" for a b
    using u clamp_index_less [OF p(1), of a] clamp_index_less [OF p(2), of b] by simp
  then show ?thesis
    unfolding window_sum_alt by simp
qed

lemma BoxBlurStep_moderate_uniform:
  assumes "raster img" "odd ks" "0 < ks"
    and "255 * (height img + nat ks - 1) * (width img + nat ks - 1) \<le> 2 ^ 24"
    and u: "\<forall>ch < channels img. \<forall>y < height img. \<forall>x < width img. pixel img y x ch = v ch"
  shows "\<exists>out. BoxBlurStep_process img ks = Inr out
     \<and> height out = height img \<and> width out = width img \<and> channels out = channels img
     \<and> (\<forall>y < height img. \<forall>x < width img. \<forall>ch < channels img.
          pixel out y x ch = pixel img y x ch)"
proof -
  from BoxBlurStep_moderate [OF assms(1-4)] obtain out where
    e: "BoxBlurStep_process img ks = Inr out"
    and d: "height out = height img" "width out = width img" "channels out = channels img"
    and p: "\<forall>y < height img. \<forall>x < width img. \<forall>ch < channels img.
          pixel out y x ch = of_nat (window_sum img (nat ks) y x ch div (nat ks * nat ks))"
    by blast
  have k: "0 < nat ks * nat ks" using assms(3) by simp
  have "pixel out y x ch = pixel img y x ch"
    if "y < height img" "x < width img" "ch < channels img" for y x ch
  proof -
    have "\<forall>y < height img. \<forall>x < width img. pixel img y x ch = v ch"
      using u that(3) by simp
    with assms(1) have "window_sum img (nat ks) y x ch = nat ks * nat ks * unat (v ch)"
      by (rule window_sum_uniform)
    then have "window_sum img (nat ks) y x ch div (nat ks * nat ks) = unat (v ch)"
      using k by simp
    then show ?thesis using p u that by simp
  qed
  with e d show ?thesis by blast
qed

section \<open>The blur on long rows\<close>

subsection \<open>A uniform row\<close>

lemma running_Suc: "running c (Suc j) = fl32 (running c j + c)"
  by (simp add: running_def)

lemma running_0: "running c 0 = c"
  by (simp add: running_def)

lemma accumulate_replicate_nth:
  assumes "j < m"
  shows "accumulate a (\<lambda>s y. fl32 (s + y)) (replicate m c) ! j = ((\<lambda>s. fl32 (s + c)) ^^ Suc j) a"
  using assms
proof (induction m arbitrary: a j)
  case 0
  then show ?case by simp
next
  case (Suc m)
  show ?case
  proof (cases j)
    case 0
    then show ?thesis by simp
  next
    case (Suc i)
    then have "i < m" using Suc.prems by simp
    have "((\<lambda>s. fl32 (s + c)) ^^ i) (fl32 (a + c)) = fl32 (((\<lambda>s. fl32 (s + c)) ^^ i) a + c)"
      by (rule funpow_swap1 [symmetric])
    with Suc.IH [OF \<open>i < m\<close>, of "fl32 (a + c)"] Suc show ?thesis
      by simp
  qed
qed

lemma cumsum_list_replicate_nth:
  assumes "j < n"
  shows "cumsum_list (replicate n c) ! j = running c j"
proof (cases n)
  case 0
  with assms show ?thesis by simp
next
  case (Suc m)
  show ?thesis
  proof (cases j)
    case 0
    then show ?thesis by (simp add: cumsum_list_def Suc running_0)
  next
    case (Suc i)
    then have "i < m" using assms \<open>n = Suc m\<close> by simp
    from accumulate_replicate_nth [OF this, of c c] Suc \<open>n = Suc m\<close> show ?thesis
      by (simp add: cumsum_list_def running_def)
  qed
qed

lemma edge1_replicate: "0 < n \<Longrightarrow> edge1 p (replicate n v) = replicate (p + n + p) v"
  by (cases n) (simp_all add: edge1_def replicate_add [symmetric] replicate_app_Cons_same)

lemma padded_uniform_row:
  assumes "0 < n" "get_chan ch rows = [replicate n v]"
  shows "padded_channel rows 1 ch =
     [replicate (n + 2) (of_u8 v), replicate (n + 2) (of_u8 v), replicate (n + 2) (of_u8 v)]"
proof -
  have "edge1 1 (replicate n (of_u8 v)) = replicate (n + 2) (of_u8 v)"
    using edge1_replicate [OF assms(1), of 1 "of_u8 v"] by (simp add: add.commute)
  then show ?thesis
    unfolding padded_channel_def assms(2) by (simp add: edge1_def)
qed

lemma map2_replicate: "map2 f (replicate n a) (replicate n b) = replicate n (f a b)"
  by (induction n) simp_all

lemma table_uniform_row:
  fixes v :: u8
  assumes "0 < n" "get_chan ch rows = [replicate n v]"
  defines "c3 \<equiv> fl32 (fl32 (of_u8 v + of_u8 v) + of_u8 v)"
  shows "integral_table 1 n 1 (padded_channel rows 1 ch) ! 0 = replicate (n + 3) 0"
    and "integral_table 1 n 1 (padded_channel rows 1 ch) ! 3
          = 0 # cumsum_list (replicate (n + 2) c3)"
  unfolding padded_uniform_row [OF assms(1,2)] c3_def
  by (simp_all add: integral_table_def cumsum_axis1_def cumsum_axis0_def map2_replicate
      numeral_3_eq_3)

lemma blur_uniform_row:
  fixes v :: u8
  assumes r: "raster img" and h: "height img = 1" and w: "width img = n"
    and ch: "ch < channels img" and g: "get_chan ch (rows3 img) = [replicate n v]"
    and x: "0 < x" "x < n"
  defines "c3 \<equiv> fl32 (fl32 (of_u8 v + of_u8 v) + of_u8 v)"
  shows "\<exists>out. BoxBlurStep_process img 3 = Inr out
     \<and> pixel out 0 x ch = astype_u8 (np_clip
         (fl32 (fl32 (fl32 (fl32 (running c3 (x + 2) - 0) - running c3 (x - 1)) + 0)
                / fl32 (of_nat 9))) 0 255)"
proof -
  have n: "0 < n" using x by simp
  from BoxBlurStep_process_pixels [OF r, of 3] obtain out where
    o: "BoxBlurStep_process img 3 = Inr out"
    and p: "\<forall>y < height img. \<forall>x < width img. \<forall>ch < channels img.
          pixel out y x ch = astype_u8 (np_clip
            (blur_value (integral_table (height img) (width img) (nat (3 div 2))
                (padded_channel (rows3 img) (nat (3 div 2)) ch)) (nat 3) y x) 0 255)"
    by auto
  let ?T = "integral_table 1 n 1 (padded_channel (rows3 img) 1 ch)"
  have px: "pixel out 0 x ch = astype_u8 (np_clip (blur_value ?T 3 0 x) 0 255)"
    using p x(2) ch unfolding h w by simp
  note t = table_uniform_row [OF n g, folded c3_def]
  have t0: "?T ! 0 ! j = 0" if "j < n + 3" for j
    using that unfolding t(1) by simp
  have t3: "?T ! 3 ! Suc j = running c3 j" if "j < n + 2" for j
    unfolding t(2) using cumsum_list_replicate_nth [OF that, of c3] by simp
  have x1: "x = Suc (x - 1)" using x(1) by simp
  have a: "?T ! 3 ! (x + 3) = running c3 (x + 2)"
    using t3 [of "x + 2"] x(2) by (simp add: numeral_3_eq_3)
  have b: "?T ! 3 ! x = running c3 (x - 1)"
    using t3 [of "x - 1"] x(2) x1 by simp
  have c: "?T ! 0 ! (x + 3) = 0" "?T ! 0 ! x = 0"
    using t0 [of "x + 3"] t0 [of x] x(2) by simp_all
  have "blur_value ?T 3 0 x =
      fl32 (fl32 (fl32 (fl32 (running c3 (x + 2) - 0) - running c3 (x - 1)) + 0) / fl32 (of_nat 9))"
    unfolding blur_value_def using a b c by simp
  with o px show ?thesis by simp
qed

lemma white_row:
  assumes "0 < n"
  shows "raster (A3 [replicate n [v, v, v]])"
    and "height (A3 [replicate n [v, v, v]]) = 1"
    and "width (A3 [replicate n [v, v, v]]) = n"
    and "channels (A3 [replicate n [v, v, v]]) = 3"
    and "ch < 3 \<Longrightarrow> get_chan ch (rows3 (A3 [replicate n [v, v, v]])) = [replicate n v]"
proof -
  show "raster (A3 [replicate n [v, v, v]])"
    using assms by (cases n) (simp_all add: raster_def rect3_def rect2_def width_of_def chans_of_def
        height_def width_def channels_def shape_c_def list_all_iff)
  show "height (A3 [replicate n [v, v, v]]) = 1" by (simp add: height_def)
  show "width (A3 [replicate n [v, v, v]]) = n" by (simp add: width_def width_of_def)
  show "channels (A3 [replicate n [v, v, v]]) = 3"
    using assms by (cases n) (simp_all add: channels_def shape_c_def chans_of_def)
  show "get_chan ch (rows3 (A3 [replicate n [v, v, v]])) = [replicate n v]" if "ch < 3"
  proof -
    from that have "ch = 0 \<or> ch = 1 \<or> ch = 2" by auto
    then show ?thesis by (auto simp add: get_chan_def rows3_def)
  qed
qed

subsection \<open>Running sums beyond \<open>2 ^ 24\<close>\<close>

lemma running_exact:
  assumes "(j + 1) * c \<le> 2 ^ 24"
  shows "running (of_nat (2 ^ t * c)) j = of_nat (2 ^ t * c * (j + 1))"
  using assms
proof (induction j)
  case 0
  then show ?case by (simp add: running_0)
next
  case (Suc j)
  have "(j + 1) * c \<le> (Suc j + 1) * c" by simp
  with Suc.prems have "(j + 1) * c \<le> 2 ^ 24" by linarith
  then have i: "running (of_nat (2 ^ t * c)) j = of_nat (2 ^ t * c * (j + 1))"
    by (rule Suc.IH)
  have "running (of_nat (2 ^ t * c)) (Suc j)
      = fl32 (of_nat (2 ^ t * c * (j + 1)) + of_nat (2 ^ t * c))"
    unfolding running_Suc i ..
  also have "of_nat (2 ^ t * c * (j + 1)) + of_nat (2 ^ t * c)
      = (of_nat (2 ^ t * ((Suc j + 1) * c)) :: rat)"
    by (simp add: algebra_simps)
  also have "fl32 (of_nat (2 ^ t * ((Suc j + 1) * c))) = of_nat (2 ^ t * ((Suc j + 1) * c))"
    using Suc.prems by (rule fl32_of_nat_scaled)
  finally show ?case by (simp add: algebra_simps)
qed

lemma fl32_int_eval:
  assumes "0 < n" "2 ^ (23 + t) \<le> n" "n < 2 ^ (24 + t)"
  shows "fl32 (of_int n) =
     of_int ((if 2 * (n mod 2 ^ t) < 2 ^ t then n div 2 ^ t
              else if 2 ^ t < 2 * (n mod 2 ^ t) then n div 2 ^ t + 1
              else if even (n div 2 ^ t) then n div 2 ^ t else n div 2 ^ t + 1) * 2 ^ t)"
proof -
  have "(0 :: int) < 2 ^ t" by simp
  from round_half_even_div [OF this, of n] fl32_int_at [OF assms] show ?thesis
    by simp
qed

lemma of_u8_255: "of_u8 255 = 255"
  by (simp add: of_u8_def)

lemma of_u8_252: "of_u8 252 = 252"
  by (simp add: of_u8_def)

lemma fl32_numeral: "numeral k \<le> (2 ^ 24 :: nat) \<Longrightarrow> fl32 (numeral k) = numeral k"
  using fl32_of_nat [of "numeral k"] by simp

lemma c3_255: "fl32 (fl32 (of_u8 255 + of_u8 255) + of_u8 255) = 765"
  by (simp add: of_u8_255 fl32_numeral)

lemma c3_252: "fl32 (fl32 (of_u8 252 + of_u8 252) + of_u8 252) = 756"
  by (simp add: of_u8_252 fl32_numeral)

lemma running_765:
  "running 765 21931 = 16777980" "running 765 21934 = 16780272"
proof -
  have r0: "running 765 21930 = 16777215"
    using running_exact [of 21930 765 0] by simp
  have r1: "running 765 21931 = fl32 (running 765 21930 + 765)"
    using running_Suc [of 765 21930] by simp
  have r2: "running 765 21932 = fl32 (running 765 21931 + 765)"
    using running_Suc [of 765 21931] by simp
  have r3: "running 765 21933 = fl32 (running 765 21932 + 765)"
    using running_Suc [of 765 21932] by simp
  have r4: "running 765 21934 = fl32 (running 765 21933 + 765)"
    using running_Suc [of 765 21933] by simp
  show v1: "running 765 21931 = 16777980"
    unfolding r1 r0 using fl32_int_eval [of 16777980 1] by simp
  have v2: "running 765 21932 = 16778744"
    unfolding r2 v1 using fl32_int_eval [of 16778745 1] by simp
  have v3: "running 765 21933 = 16779508"
    unfolding r3 v2 using fl32_int_eval [of 16779509 1] by simp
  show "running 765 21934 = 16780272"
    unfolding r4 v3 using fl32_int_eval [of 16780273 1] by simp
qed

lemma running_756:
  "running 756 88768 = 67109360" "running 756 88771 = 67111616"
proof -
  have r0: "running 756 88767 = 67108608"
    using running_exact [of 88767 189 2] by simp
  have r1: "running 756 88768 = fl32 (running 756 88767 + 756)"
    using running_Suc [of 756 88767] by simp
  have r2: "running 756 88769 = fl32 (running 756 88768 + 756)"
    using running_Suc [of 756 88768] by simp
  have r3: "running 756 88770 = fl32 (running 756 88769 + 756)"
    using running_Suc [of 756 88769] by simp
  have r4: "running 756 88771 = fl32 (running 756 88770 + 756)"
    using running_Suc [of 756 88770] by simp
  show v1: "running 756 88768 = 67109360"
    unfolding r1 r0 using fl32_int_eval [of 67109364 3] by simp
  have v2: "running 756 88769 = 67110112"
    unfolding r2 v1 using fl32_int_eval [of 67110116 3] by simp
  have v3: "running 756 88770 = 67110864"
    unfolding r3 v2 using fl32_int_eval [of 67110868 3] by simp
  show "running 756 88771 = 67111616"
    unfolding r4 v3 using fl32_int_eval [of 67111620 3] by simp
qed

lemma window_sum_uniform_row:
  assumes "x < n" "ch < 3"
  shows "window_sum (A3 [replicate n [v, v, v]]) 3 0 x ch = 9 * unat v"
proof -
  have i: "clamp_index j n < n" for j
    using assms by (simp add: clamp_index_def clamp_def)
  from assms(2) have "ch = 0 \<or> ch = 1 \<or> ch = 2" by auto
  then have c: "[v, v, v] ! ch = v" by auto
  have p: "pixel (A3 [replicate n [v, v, v]]) (clamp_index a (Suc 0)) (clamp_index b n) ch = v" for a b
    using i [of b] c by (simp add: pixel_def clamp_index_def clamp_def)
  have u: "[0..<3] = [0, 1, 2]"
    by (simp add: upt_rec)
  show ?thesis
    unfolding window_sum_def u by (simp add: p height_def width_def width_of_def)
qed

lemma blur_white_row_255:
  "\<exists>out. BoxBlurStep_process (A3 [replicate 21933 [255, 255, 255]]) 3 = Inr out
      \<and> pixel out 0 21932 0 = 254"
proof -
  have n: "(0 :: nat) < 21933" by simp
  note wr = white_row [where n = 21933 and v = "255 :: u8", OF n]
  have ch: "0 < channels (A3 [replicate 21933 [255 :: u8, 255, 255]])"
    unfolding wr(4) by simp
  have g: "get_chan 0 (rows3 (A3 [replicate 21933 [255 :: u8, 255, 255]])) = [replicate 21933 255]"
    by (rule wr(5)) simp
  from blur_uniform_row [OF wr(1) wr(2) wr(3) ch g, of 21932] obtain out where
    o: "BoxBlurStep_process (A3 [replicate 21933 [255, 255, 255]]) 3 = Inr out"
    and p: "pixel out 0 21932 0 = astype_u8 (np_clip
         (fl32 (fl32 (fl32 (fl32 (running (fl32 (fl32 (of_u8 255 + of_u8 255) + of_u8 255)) (21932 + 2) - 0)
              - running (fl32 (fl32 (of_u8 255 + of_u8 255) + of_u8 255)) (21932 - 1)) + 0)
                / fl32 (of_nat 9))) 0 255)"
    by auto
  have e1: "fl32 16780272 = 16780272"
    using fl32_int_eval [of 16780272 1] by simp
  have e2: "fl32 2292 = 2292" "fl32 9 = 9"
    by (simp_all add: fl32_numeral)
  have e3: "astype_u8 (np_clip (fl32 (764 / 3)) 0 255) = 254"
    using clip_trunc_div [of 9 2292] by simp
  have "pixel out 0 21932 0 = 254"
    unfolding p c3_255 by (simp add: running_765 e1 e2 e3)
  with o show ?thesis by blast
qed

lemma blur_row_252:
  "\<exists>out. BoxBlurStep_process (A3 [replicate 88770 [252, 252, 252]]) 3 = Inr out
      \<and> pixel out 0 88769 0 = 250"
proof -
  have n: "(0 :: nat) < 88770" by simp
  note wr = white_row [where n = 88770 and v = "252 :: u8", OF n]
  have ch: "0 < channels (A3 [replicate 88770 [252 :: u8, 252, 252]])"
    unfolding wr(4) by simp
  have g: "get_chan 0 (rows3 (A3 [replicate 88770 [252 :: u8, 252, 252]])) = [replicate 88770 252]"
    by (rule wr(5)) simp
  from blur_uniform_row [OF wr(1) wr(2) wr(3) ch g, of 88769] obtain out where
    o: "BoxBlurStep_process (A3 [replicate 88770 [252, 252, 252]]) 3 = Inr out"
    and p: "pixel out 0 88769 0 = astype_u8 (np_clip
         (fl32 (fl32 (fl32 (fl32 (running (fl32 (fl32 (of_u8 252 + of_u8 252) + of_u8 252)) (88769 + 2) - 0)
              - running (fl32 (fl32 (of_u8 252 + of_u8 252) + of_u8 252)) (88769 - 1)) + 0)
                / fl32 (of_nat 9))) 0 255)"
    by auto
  have e1: "fl32 67111616 = 67111616"
    using fl32_int_eval [of 67111616 3] by simp
  have e2: "fl32 2256 = 2256" "fl32 9 = 9"
    by (simp_all add: fl32_numeral)
  have e3: "astype_u8 (np_clip (fl32 (752 / 3)) 0 255) = 250"
    using clip_trunc_div [of 9 2256] by simp
  have "pixel out 0 88769 0 = 250"
    unfolding p c3_252 by (simp add: running_756 e1 e2 e3)
  with o show ?thesis by blast
qed

subsection \<open>Two rows evaluated\<close>

text \<open>
  The table of cumulative sums is a float32 array, and float32 holds every integer only
  up to \<open>2 ^ 24 = 16777216\<close>. On a row of white pixels blurred with a \<open>3 \<times> 3\<close> kernel the
  bottom row of the table is \<open>765, 1530, ...\<close>; entry 21931 would be 16777980, and from
  there on the sums are rounded to even numbers. The four-corner difference for the last
  pixel is then 2292 instead of \<open>9 * 255 = 2295\<close>, and \<open>2292 / 9\<close> is stored as 254.
\<close>

text \<open>
  Claim C9, at a failing input: the image is one row of 21933 white pixels, all three channels
  255 everywhere, and the kernel size is 3. The blur returns an image whose last pixel
  has 254 in channel 0, where the input has 255: a uniform image is not returned
  unchanged.
\<close>

theorem BoxBlurStep_uniform_row_changed:
  "\<exists>out. BoxBlurStep_process (A3 [replicate 21933 [255, 255, 255]]) 3 = Inr out
      \<and> pixel out 0 21932 0 = 254
      \<and> pixel (A3 [replicate 21933 [255, 255, 255]]) 0 21932 0 = (255 :: u8)"
proof -
  have "pixel (A3 [replicate 21933 [255, 255, 255]]) 0 21932 0 = (255 :: u8)"
    by (simp add: pixel_def)
  with blur_white_row_255 show ?thesis by blast
qed

text \<open>
  Claim C1, at a failing input: the image is one row of 88770 pixels, all three channels 252
  everywhere, and the kernel size is 3. The mean of the \<open>3 \<times> 3\<close> neighbourhood of the last
  pixel, with edge replication, is 252; the blur returns 250 there, two levels away.
\<close>

theorem BoxBlurStep_row_off_by_two:
  "\<exists>out. BoxBlurStep_process (A3 [replicate 88770 [252, 252, 252]]) 3 = Inr out
      \<and> pixel out 0 88769 0 = 250
      \<and> brute_force_mean (A3 [replicate 88770 [252, 252, 252]]) 3 0 88769 0 = 252"
proof -
  have "window_sum (A3 [replicate 88770 [252, 252, 252]]) 3 0 88769 0 = 9 * unat (252 :: u8)"
    by (rule window_sum_uniform_row) simp_all
  then have "brute_force_mean (A3 [replicate 88770 [252, 252, 252]]) 3 0 88769 0 = 252"
    by (simp add: brute_force_mean_def)
  with blur_row_252 show ?thesis by blast
qed

section \<open>Unsharp mask\<close>

subsection \<open>Arrays of one shape\<close>

lemma rows3_map_ndarray: "rows3 (map_ndarray f a) = map (map (map f)) (rows3 a)"
  by (cases a) (simp_all add: rows3_def comp_def)

lemma ndim_map_ndarray: "ndim (map_ndarray f a) = ndim a"
  by (cases a) (simp_all add: ndim_def)

lemma map3_nth:
  assumes "shaped h w c a" "i < h" "j < w" "k < c"
  shows "map (map (map f)) a ! i ! j ! k = f (a ! i ! j ! k)"
proof -
  have "length a = h" using assms(1) by (simp add: shaped_def)
  with shaped_nth [OF assms(1-3)] assms(2-4) show ?thesis by simp
qed

lemma shaped_dims:
  assumes "shaped h w c (rows3 a)" "0 < h" "0 < w" "0 < c"
  shows "height a = h" "width a = w" "channels a = c"
    and "i < h \<Longrightarrow> j < w \<Longrightarrow> k < c \<Longrightarrow> rows3 a ! i ! j ! k = pixel a i j k"
proof -
  have l: "length (rows3 a) = h" using assms(1) by (simp add: shaped_def)
  have w: "width_of (rows3 a) = w" using assms(1,2) by (rule shaped_width)
  note c = shaped_chans [OF assms(1-3)]
  show "height a = h" using l by (cases a) (simp_all add: height_def rows3_def)
  show "width a = w" using w by (cases a) (simp_all add: width_def rows3_def width_of_map_map)
  show "channels a = c"
  proof (cases a)
    case (A2 rows)
    have "length (rows3 a ! 0 ! 0) = c" using assms by (intro shaped_nth(2))
    moreover have "0 < length rows" "0 < length (rows ! 0)"
      using l shaped_nth(1) [OF assms(1,2,3)] assms(2,3) by (simp_all add: A2 rows3_def)
    ultimately show ?thesis by (simp add: A2 rows3_def channels_def)
  next
    case (A3 rows)
    then show ?thesis
      using c shape_c_nonempty [of rows] by (simp add: channels_def rows3_def)
  qed
  show "rows3 a ! i ! j ! k = pixel a i j k" if "i < h" "j < w" "k < c"
  proof (cases a)
    case (A2 rows)
    have i: "i < length rows" using l that(1) by (simp add: A2 rows3_def)
    have "length (rows3 a ! i) = w" "length (rows3 a ! i ! j) = c"
      using shaped_nth [OF assms(1) that(1,2)] .
    then have "j < length (rows ! i)" "c = 1"
      using i that(2) by (simp_all add: A2 rows3_def)
    then show ?thesis using i that(3) by (simp add: A2 rows3_def pixel_def)
  next
    case (A3 rows)
    then show ?thesis by (simp add: rows3_def pixel_def)
  qed
qed

lemma broadcast3_same:
  assumes a: "shaped h w c a" and b: "shaped h w c b" and p: "0 < h" "0 < w" "0 < c"
  shows "broadcast3 f a b =
     Inr (map (\<lambda>i. map (\<lambda>j. map (\<lambda>k. f (a ! i ! j ! k) (b ! i ! j ! k)) [0..<c]) [0..<w]) [0..<h])"
proof -
  have sa: "shape3 a = (h, w, c)"
    using a shaped_width [OF a p(1)] shaped_chans(2) [OF a p(1,2)]
    by (simp add: shape3_def shaped_def)
  have sb: "shape3 b = (h, w, c)"
    using b shaped_width [OF b p(1)] shaped_chans(2) [OF b p(1,2)]
    by (simp add: shape3_def shaped_def)
  have i: "bidx d i = i" if "i < d" for d i
    using that by (simp add: bidx_def)
  have "map (\<lambda>i. map (\<lambda>j. map (\<lambda>k.
            f (a ! bidx h i ! bidx w j ! bidx c k) (b ! bidx h i ! bidx w j ! bidx c k))
          [0..<c]) [0..<w]) [0..<h]
      = map (\<lambda>i. map (\<lambda>j. map (\<lambda>k. f (a ! i ! j ! k) (b ! i ! j ! k)) [0..<c]) [0..<w]) [0..<h]"
    by (intro map_cong refl) (simp add: i)
  then show ?thesis
    unfolding broadcast3_def sa sb by (simp add: compat_def bdim_def)
qed

lemma np_binop_same:
  assumes x: "shaped h w c (rows3 x)" and y: "shaped h w c (rows3 y)"
    and n: "ndim x = ndim y" and p: "0 < h" "0 < w" "0 < c"
  shows "\<exists>z. np_binop f x y = Inr z \<and> shaped h w c (rows3 z) \<and> ndim z = ndim x
     \<and> (\<forall>i<h. \<forall>j<w. \<forall>k<c. pixel z i j k = f (pixel x i j k) (pixel y i j k))"
proof -
  define z3 where "z3 = map (\<lambda>i. map (\<lambda>j. map (\<lambda>k. f (pixel x i j k) (pixel y i j k))
          [0..<c]) [0..<w]) [0..<h]"
  have sz: "shaped h w c z3"
    by (auto simp: shaped_def z3_def)
  have "\<exists>z. np_binop f x y = Inr z \<and> rows3 z = z3 \<and> ndim z = ndim x"
  proof (cases x)
    case (A3 a)
    with n obtain b where B: "y = A3 b" by (cases y) (simp_all add: ndim_def)
    have sa: "shaped h w c a" and sb: "shaped h w c b"
      using x y by (simp_all add: A3 B rows3_def)
    have "map (\<lambda>i. map (\<lambda>j. map (\<lambda>k. f (a ! i ! j ! k) (b ! i ! j ! k)) [0..<c]) [0..<w]) [0..<h] = z3"
      unfolding z3_def by (intro map_cong refl) (simp add: A3 B pixel_def)
    then have "broadcast3 f a b = Inr z3"
      unfolding broadcast3_same [OF sa sb p] by simp
    then show ?thesis by (simp add: np_binop_def A3 B rows3_def ndim_def)
  next
    case (A2 a)
    with n obtain b where B: "y = A2 b" by (cases y) (simp_all add: ndim_def)
    have c1: "c = 1"
      using shaped_dims(3) [OF x p] by (simp add: A2 channels_def)
    have sa: "shaped 1 h w [a]" and sb: "shaped 1 h w [b]"
      using x y by (auto simp: A2 B rows3_def shaped_def)
    define z2 where "z2 = map (\<lambda>j. map (\<lambda>k. f (a ! j ! k) (b ! j ! k)) [0..<w]) [0..<h]"
    have "broadcast3 f [a] [b] = Inr [z2]"
      unfolding broadcast3_same [OF sa sb zero_less_one p(1,2)] by (simp add: z2_def)
    moreover have "map (map (\<lambda>p. [p])) z2 = z3"
      unfolding z2_def z3_def c1 by (simp add: A2 B pixel_def comp_def)
    ultimately show ?thesis by (simp add: np_binop_def A2 B rows3_def ndim_def)
  qed
  then obtain z where z: "np_binop f x y = Inr z" "rows3 z = z3" "ndim z = ndim x"
    by blast
  have s: "shaped h w c (rows3 z)" using sz z(2) by simp
  have "pixel z i j k = f (pixel x i j k) (pixel y i j k)" if "i < h" "j < w" "k < c" for i j k
    using shaped_dims(4) [OF s p that] that unfolding z(2) by (simp add: z3_def)
  with z s show ?thesis by blast
qed

subsection \<open>The mask, pixel by pixel\<close>

lemma pixel_map_ndarray:
  assumes "shaped h w c (rows3 a)" "0 < h" "0 < w" "0 < c" "i < h" "j < w" "k < c"
  shows "pixel (map_ndarray f a) i j k = f (pixel a i j k)"
proof -
  have s: "shaped h w c (rows3 (map_ndarray f a))"
    unfolding rows3_map_ndarray using assms(1) by (rule shaped_map)
  have "pixel (map_ndarray f a) i j k = rows3 (map_ndarray f a) ! i ! j ! k"
    using shaped_dims(4) [OF s assms(2-7)] by simp
  also have "\<dots> = f (rows3 a ! i ! j ! k)"
    unfolding rows3_map_ndarray using assms(1,5,6,7) by (rule map3_nth)
  also have "rows3 a ! i ! j ! k = pixel a i j k"
    using assms by (rule shaped_dims(4))
  finally show ?thesis .
qed

lemma blur_keeps_shape:
  assumes r: "raster img" and o: "odd ks" and p: "0 < ks"
    and n: "ndim img = 2 \<or> channels img \<noteq> 1"
  shows "\<exists>out. BoxBlurStep_process img ks = Inr out \<and> ndim out = ndim img
     \<and> shaped (height img) (width img) (channels img) (rows3 out)"
proof -
  from BoxBlurStep_process_form [OF r o p] obtain o3 where
    e: "BoxBlurStep_process img ks = Inr (blur_finish (channels img) o3)"
    and s: "shaped (height img) (width img) (channels img) o3"
    by blast
  let ?f = "\<lambda>v. astype_u8 (np_clip v 0 255)"
  show ?thesis
  proof (cases "channels img = 1")
    case True
    with n have n2: "ndim img = 2" by simp
    have f: "blur_finish (channels img) o3 = A2 (map (map ?f) (get_chan 0 o3))"
      by (simp add: blur_finish_def True)
    have "shaped (height img) (width img) 1 (rows3 (A2 (map (map ?f) (get_chan 0 o3))))"
      using s by (auto simp: shaped_def rows3_def get_chan_def)
    then show ?thesis
      unfolding e f using n2 True by (simp add: ndim_def)
  next
    case False
    then have n3: "ndim img = 3" by (cases img) (simp_all add: ndim_def channels_def)
    have f: "blur_finish (channels img) o3 = A3 (map (map (map ?f)) o3)"
      using False by (simp add: blur_finish_def)
    have "shaped (height img) (width img) (channels img) (rows3 (A3 (map (map (map ?f)) o3)))"
      using shaped_map [OF s] by (simp add: rows3_def)
    then show ?thesis
      unfolding e f using n3 False by (simp add: ndim_def)
  qed
qed

lemma UnsharpMaskStep_pixels:
  assumes r: "raster img" and o: "odd ks" and p: "0 < ks"
    and n: "ndim img = 2 \<or> channels img \<noteq> 1"
  shows "\<exists>blurred out. BoxBlurStep_process img ks = Inr blurred
     \<and> UnsharpMaskStep_process img strength ks = Inr out
     \<and> ndim out = ndim img
     \<and> height out = height img \<and> width out = width img \<and> channels out = channels img
     \<and> (\<forall>y < height img. \<forall>x < width img. \<forall>ch < channels img.
          pixel out y x ch = unsharp_value strength (pixel img y x ch) (pixel blurred y x ch))"
proof -
  define h where "h = height img"
  define w where "w = width img"
  define c where "c = channels img"
  have q: "0 < h" "0 < w" "0 < c"
    using r by (simp_all add: raster_def h_def w_def c_def)
  have si: "shaped h w c (rows3 img)"
    using raster_shaped(1) [OF r] by (simp add: h_def w_def c_def)
  from blur_keeps_shape [OF r o p n] obtain blurred where
    e: "BoxBlurStep_process img ks = Inr blurred"
    and nb: "ndim blurred = ndim img"
    and sb: "shaped h w c (rows3 blurred)"
    unfolding h_def w_def c_def by blast
  let ?X = "map_ndarray of_u8 img"
  let ?Y = "map_ndarray of_u8 blurred"
  have sX: "shaped h w c (rows3 ?X)"
    unfolding rows3_map_ndarray using si by (rule shaped_map)
  have sY: "shaped h w c (rows3 ?Y)"
    unfolding rows3_map_ndarray using sb by (rule shaped_map)
  have nXY: "ndim ?X = ndim ?Y"
    by (simp add: ndim_map_ndarray nb)
  from np_binop_same [OF sX sY nXY q, of "\<lambda>p b. fl32 (p - b)"] obtain diff where
    d: "np_binop (\<lambda>p b. fl32 (p - b)) ?X ?Y = Inr diff"
    and sd: "shaped h w c (rows3 diff)"
    and nd: "ndim diff = ndim ?X"
    and pd: "\<forall>i<h. \<forall>j<w. \<forall>k<c. pixel diff i j k = fl32 (pixel ?X i j k - pixel ?Y i j k)"
    by blast
  let ?D = "map_ndarray (\<lambda>d. fl32 (fl32 strength * d)) diff"
  have sD: "shaped h w c (rows3 ?D)"
    unfolding rows3_map_ndarray using sd by (rule shaped_map)
  have nXD: "ndim ?X = ndim ?D"
    by (simp add: ndim_map_ndarray nd)
  from np_binop_same [OF sX sD nXD q, of "\<lambda>p d. fl32 (p + d)"] obtain sharpened where
    s: "np_binop (\<lambda>p d. fl32 (p + d)) ?X ?D = Inr sharpened"
    and ss: "shaped h w c (rows3 sharpened)"
    and ns: "ndim sharpened = ndim ?X"
    and ps: "\<forall>i<h. \<forall>j<w. \<forall>k<c. pixel sharpened i j k = fl32 (pixel ?X i j k + pixel ?D i j k)"
    by blast
  let ?out = "map_ndarray (\<lambda>v. astype_u8 (np_clip v 0 255)) sharpened"
  have u: "UnsharpMaskStep_process img strength ks = Inr ?out"
    unfolding UnsharpMaskStep_process_def e by (simp add: d s)
  have so: "shaped h w c (rows3 ?out)"
    unfolding rows3_map_ndarray using ss by (rule shaped_map)
  have no: "ndim ?out = ndim img"
    by (simp add: ndim_map_ndarray ns)
  have "pixel ?out y x ch = unsharp_value strength (pixel img y x ch) (pixel blurred y x ch)"
    if t: "y < h" "x < w" "ch < c" for y x ch
  proof -
    have 1: "pixel ?X y x ch = of_u8 (pixel img y x ch)"
      using si q t by (rule pixel_map_ndarray)
    have 2: "pixel ?Y y x ch = of_u8 (pixel blurred y x ch)"
      using sb q t by (rule pixel_map_ndarray)
    have 3: "pixel ?D y x ch = fl32 (fl32 strength * pixel diff y x ch)"
      using sd q t by (rule pixel_map_ndarray)
    have 4: "pixel ?out y x ch = astype_u8 (np_clip (pixel sharpened y x ch) 0 255)"
      using ss q t by (rule pixel_map_ndarray)
    show ?thesis
      unfolding 4 unsharp_value_def using ps pd t by (simp add: 1 2 3)
  qed
  with e u no shaped_dims(1-3) [OF so q] show ?thesis
    unfolding h_def w_def c_def by blast
qed

lemma unsharp_value_0: "unsharp_value 0 p b = p"
  by (simp add: unsharp_value_def fl32_0 fl32_of_u8 np_clip_of_u8 astype_u8_of_u8)

lemma UnsharpMaskStep_strength_0:
  assumes "raster img" "odd ks" "0 < ks" "ndim img = 2 \<or> channels img \<noteq> 1"
  shows "\<exists>out. UnsharpMaskStep_process img 0 ks = Inr out
     \<and> ndim out = ndim img
     \<and> height out = height img \<and> width out = width img \<and> channels out = channels img
     \<and> (\<forall>y < height img. \<forall>x < width img. \<forall>ch < channels img.
          pixel out y x ch = pixel img y x ch)"
  using UnsharpMaskStep_pixels [OF assms, of 0] unfolding unsharp_value_0 by blast

subsection \<open>One channel held in three dimensions\<close>

lemma blur_single_channel:
  assumes "raster (A3 rows)" "channels (A3 rows) = 1" "odd ks" "0 < ks"
  shows "\<exists>b. BoxBlurStep_process (A3 rows) ks = Inr (A2 b)
      \<and> length b = length rows \<and> length (hd b) = width_of rows"
proof -
  from BoxBlurStep_process_form [OF assms(1,3,4)] obtain out where
    e: "BoxBlurStep_process (A3 rows) ks = Inr (blur_finish (channels (A3 rows)) out)"
    and s: "shaped (height (A3 rows)) (width (A3 rows)) (channels (A3 rows)) out"
    by blast
  have h: "height (A3 rows) = length rows" "width (A3 rows) = width_of rows"
    by (simp_all add: height_def width_def)
  have p: "0 < length rows" "0 < width_of rows"
    using assms(1) by (simp_all add: raster_def h)
  let ?b = "map (map (\<lambda>v. astype_u8 (np_clip v 0 255))) (get_chan 0 out)"
  have f: "blur_finish (channels (A3 rows)) out = A2 ?b"
    by (simp add: blur_finish_def assms(2))
  have l: "length out = length rows"
    using s by (simp add: shaped_def h)
  have w: "width_of out = width_of rows"
    using shaped_width [OF s] p(1) by (simp add: h)
  from l p(1) obtain r rs where o: "out = r # rs" by (cases out) auto
  have "length (hd ?b) = width_of out"
    by (simp add: o get_chan_def width_of_def)
  with e f l w show ?thesis by (simp add: get_chan_def)
qed

lemma unsharp_single_channel:
  assumes "raster (A3 rows)" "channels (A3 rows) = 1" "odd ks" "0 < ks"
    and "width_of rows \<noteq> length rows" "width_of rows \<noteq> 1" "length rows \<noteq> 1"
  shows "UnsharpMaskStep_process (A3 rows) strength ks
           = Inl (ValueError ''operands could not be broadcast together'')"
proof -
  from blur_single_channel [OF assms(1-4)] obtain b where
    e: "BoxBlurStep_process (A3 rows) ks = Inr (A2 b)"
    and l: "length b = length rows" "length (hd b) = width_of rows"
    by blast
  have p: "0 < length rows"
    using assms(1) by (simp add: raster_def height_def)
  then obtain r rs where b: "b = r # rs" using l(1) by (cases b) auto
  have s2: "shape3 [map (map of_u8) b] = (1, length rows, width_of rows)"
    using l by (simp add: shape3_def width_of_def chans_of_def b)
  have s1: "fst (shape3 (map (map (map of_u8)) rows)) = length rows"
    "fst (snd (shape3 (map (map (map of_u8)) rows))) = width_of rows"
    by (simp_all add: shape3_def width_of_map_map)
  have "\<not> compat (width_of rows) (length rows)"
    using assms(5-7) by (simp add: compat_def)
  then have "broadcast3 f (map (map (map of_u8)) rows) [map (map of_u8) b]
       = Inl (ValueError ''operands could not be broadcast together'')" for f :: "rat \<Rightarrow> rat \<Rightarrow> rat"
    unfolding broadcast3_def s2 using s1 by (simp add: case_prod_beta)
  then show ?thesis
    unfolding UnsharpMaskStep_process_def e by (simp add: np_binop_def)
qed

text \<open>
  Claim C7, at a failing input: the image is a single-channel raster buffer of height 2 and
  width 3 held as a three-dimensional array (shape \<open>(2, 3, 1)\<close>), strength is 0 and
  \<open>blur_size\<close> is 3. The blur drops the channel axis of every one-channel result, so
  \<open>blurred\<close> has shape \<open>(2, 3)\<close>, and \<open>image - blurred\<close> raises numpy's broadcasting error:
  nothing is returned, where the specification has the input returned unchanged.
\<close>

theorem UnsharpMaskStep_single_channel_raises:
  "UnsharpMaskStep_process (A3 [[[1], [2], [3]], [[4], [5], [6]]]) 0 3
     = Inl (ValueError ''operands could not be broadcast together'')"
proof -
  let ?rows = "[[[1], [2], [3]], [[4], [5], [6 :: u8]]]"
  have r: "raster (A3 ?rows)"
    by (simp add: raster_def rect3_def rect2_def width_of_def chans_of_def height_def width_def
        channels_def shape_c_def)
  have c: "channels (A3 ?rows) = 1"
    by (simp add: channels_def shape_c_def chans_of_def)
  show ?thesis
    by (rule unsharp_single_channel [OF r c]) (simp_all add: width_of_def)
qed

end
